theory Spec2Isabelle
  imports Main "HOL-Library.Word"
begin

unbundle bit_operations_syntax

section \<open>Machine data\<close>

text \<open>
  The DHCP link-layer transport of wicked (\<^verbatim>\<open>src/dhcp/socket-linux.c\<close>) works on
  raw memory: a packet is a sequence of bytes, a pointer into a packet is the sequence of
  bytes from that position on, and the header structures of \<^verbatim>\<open>netinet/ip.h\<close> and
  \<^verbatim>\<open>netinet/udp.h\<close> are views of 20 and 8 of those bytes.  The host is little-endian
  (the file is the Linux/x86 back end): a \<^verbatim>\<open>uint16_t\<close> read through a pointer has its
  first byte as low byte, and \<^verbatim>\<open>htons\<close> swaps the two bytes.
\<close>

type_synonym byte = "8 word"
type_synonym u16 = "16 word"
type_synonym u32 = "32 word"

definition load16 :: "byte \<Rightarrow> byte \<Rightarrow> u16" where
  "load16 b0 b1 = ucast b0 OR push_bit 8 (ucast b1)"

definition store16 :: "u16 \<Rightarrow> byte list" where
  "store16 w = [ucast w, ucast (drop_bit 8 w)]"

definition load32 :: "byte \<Rightarrow> byte \<Rightarrow> byte \<Rightarrow> byte \<Rightarrow> u32" where
  "load32 b0 b1 b2 b3 =
     ucast b0 OR push_bit 8 (ucast b1) OR push_bit 16 (ucast b2) OR push_bit 24 (ucast b3)"

definition store32 :: "u32 \<Rightarrow> byte list" where
  "store32 w = [ucast w, ucast (drop_bit 8 w), ucast (drop_bit 16 w), ucast (drop_bit 24 w)]"

definition htons :: "u16 \<Rightarrow> u16" where
  "htons w = push_bit 8 w OR drop_bit 8 w"

definition ntohs :: "u16 \<Rightarrow> u16" where
  "ntohs w = push_bit 8 w OR drop_bit 8 w"

text \<open>Writing \<open>bs\<close> into memory \<open>mem\<close> at offset \<open>off\<close>.\<close>

definition poke :: "byte list \<Rightarrow> nat \<Rightarrow> byte list \<Rightarrow> byte list" where
  "poke mem off bs = take off mem @ bs @ drop (off + length bs) mem"

section \<open>Checksum primitives\<close>

text \<open>
  \<^verbatim>\<open>checksum_partial(sum, data, len)\<close>: the loop adds one host-order 16-bit word per two
  bytes to the 32-bit accumulator, and a trailing odd byte as \<^verbatim>\<open>htons(a << 8)\<close>.  The
  loop reads \<open>len\<close> bytes from \<open>data\<close>; \<open>checksum_partial\<close> is \<open>None\<close> when that
  is more than the memory behind the pointer holds.
\<close>

fun checksum_loop :: "u32 \<Rightarrow> byte list \<Rightarrow> nat \<Rightarrow> u32" where
  "checksum_loop sum0 (b0 # b1 # data) len =
     (if len > 1 then checksum_loop (sum0 + ucast (load16 b0 b1)) data (len - 2)
      else if len = 1 then sum0 + ucast (htons (push_bit 8 (ucast b0)))
      else sum0)"
| "checksum_loop sum0 [b0] len =
     (if len = 1 then sum0 + ucast (htons (push_bit 8 (ucast b0))) else sum0)"
| "checksum_loop sum0 [] len = sum0"

definition checksum_partial :: "u32 \<Rightarrow> byte list \<Rightarrow> nat \<Rightarrow> u32 option" where
  "checksum_partial sum0 data len =
     (if length data < len then None else Some (checksum_loop sum0 data len))"

definition checksum_fold :: "u32 \<Rightarrow> u16" where
  "checksum_fold sum0 =
     (let sum1 = drop_bit 16 sum0 + (sum0 AND 0xffff);
          sum2 = sum1 + drop_bit 16 sum1
      in ucast (NOT sum2))"

definition checksum :: "byte list \<Rightarrow> nat \<Rightarrow> u16 option" where
  "checksum data length0 =
     (case checksum_partial 0 data length0 of
        None \<Rightarrow> None
      | Some sum0 \<Rightarrow> Some (checksum_fold sum0))"

section \<open>IP and UDP headers\<close>

text \<open>
  \<^verbatim>\<open>struct ip\<close> and the BSD \<^verbatim>\<open>struct udphdr\<close>.  \<open>ip_bytes\<close> and \<open>udphdr_bytes\<close>
  give the memory image of a structure, \<open>ip_of_bytes\<close> and \<open>udphdr_of_bytes\<close> read the
  fields through a pointer.  On a little-endian host \<^verbatim>\<open>ip_hl\<close> is the low and
  \<^verbatim>\<open>ip_v\<close> the high nibble of the first byte.
\<close>

type_synonym in_addr = u32

record ip =
  ip_hl :: byte
  ip_v :: byte
  ip_tos :: byte
  ip_len :: u16
  ip_id :: u16
  ip_off :: u16
  ip_ttl :: byte
  ip_p :: byte
  ip_sum :: u16
  ip_src :: in_addr
  ip_dst :: in_addr

record udphdr =
  uh_sport :: u16
  uh_dport :: u16
  uh_ulen :: u16
  uh_sum :: u16

definition ip_bytes :: "ip \<Rightarrow> byte list" where
  "ip_bytes h =
     [push_bit 4 (ip_v h) OR (ip_hl h AND 0x0f), ip_tos h] @ store16 (ip_len h) @
     store16 (ip_id h) @ store16 (ip_off h) @ [ip_ttl h, ip_p h] @ store16 (ip_sum h) @
     store32 (ip_src h) @ store32 (ip_dst h)"

definition ip_of_bytes :: "byte list \<Rightarrow> ip" where
  "ip_of_bytes d =
     \<lparr>ip_hl = d ! 0 AND 0x0f, ip_v = drop_bit 4 (d ! 0), ip_tos = d ! 1,
      ip_len = load16 (d ! 2) (d ! 3), ip_id = load16 (d ! 4) (d ! 5),
      ip_off = load16 (d ! 6) (d ! 7), ip_ttl = d ! 8, ip_p = d ! 9,
      ip_sum = load16 (d ! 10) (d ! 11),
      ip_src = load32 (d ! 12) (d ! 13) (d ! 14) (d ! 15),
      ip_dst = load32 (d ! 16) (d ! 17) (d ! 18) (d ! 19)\<rparr>"

definition udphdr_bytes :: "udphdr \<Rightarrow> byte list" where
  "udphdr_bytes u =
     store16 (uh_sport u) @ store16 (uh_dport u) @ store16 (uh_ulen u) @ store16 (uh_sum u)"

definition udphdr_of_bytes :: "byte list \<Rightarrow> udphdr" where
  "udphdr_of_bytes d =
     \<lparr>uh_sport = load16 (d ! 0) (d ! 1), uh_dport = load16 (d ! 2) (d ! 3),
      uh_ulen = load16 (d ! 4) (d ! 5), uh_sum = load16 (d ! 6) (d ! 7)\<rparr>"

definition IPPROTO_UDP :: byte where "IPPROTO_UDP = 17"
definition IPTOS_LOWDELAY :: byte where "IPTOS_LOWDELAY = 0x10"
definition IPDEFTTL :: byte where "IPDEFTTL = 64"
definition IP_DF :: u16 where "IP_DF = 0x4000"
definition INADDR_BROADCAST :: in_addr where "INADDR_BROADCAST = 0xffffffff"
definition DHCP_CLIENT_PORT :: u16 where "DHCP_CLIENT_PORT = 68"
definition DHCP_SERVER_PORT :: u16 where "DHCP_SERVER_PORT = 67"

text \<open>
  \<^verbatim>\<open>ipudp_checksum(iph, uh, data, length)\<close>.  \<open>iph\<close> and \<open>uh\<close> are the memory behind
  the two header pointers; the function reads the addresses and the protocol from the
  first, the UDP length and its eight raw bytes from the second.  The 12-byte pseudo
  header is \<^verbatim>\<open>src, dst, mbz, proto, length\<close>.  \<^verbatim>\<open>length\<close> is a \<^verbatim>\<open>size_t\<close> that
  \<^verbatim>\<open>checksum_partial\<close> receives as a \<^verbatim>\<open>uint16_t\<close>.
\<close>

definition ipudp_checksum :: "byte list \<Rightarrow> byte list \<Rightarrow> byte list \<Rightarrow> nat \<Rightarrow> u16 option" where
  "ipudp_checksum iph uh data length0 =
     (if length iph < 20 \<or> length uh < 8 then None
      else
        let fake_header =
              store32 (ip_src (ip_of_bytes iph)) @ store32 (ip_dst (ip_of_bytes iph)) @
              [0, ip_p (ip_of_bytes iph)] @ store16 (uh_ulen (udphdr_of_bytes uh))
        in case checksum_partial 0 fake_header 12 of
             None \<Rightarrow> None
           | Some csum1 \<Rightarrow>
               (case checksum_partial csum1 uh 8 of
                  None \<Rightarrow> None
                | Some csum2 \<Rightarrow>
                    (case checksum_partial csum2 data (length0 mod 65536) of
                       None \<Rightarrow> None
                     | Some csum3 \<Rightarrow> Some (checksum_fold csum3))))"

section \<open>Packet buffers\<close>

text \<open>
  Modelled from the spec: the \<^verbatim>\<open>ni_buffer_t\<close> operations are declared outside the
  source files at hand.  The spec's contract for the header build is that the buffer's
  readable region is the payload and that the buffer supports prepending bytes before
  its current head.  A buffer is its memory \<open>base\<close> with the readable region between
  \<open>head\<close> and \<open>tail\<close>; \<open>ni_buffer_push_head\<close> moves the head back
  by \<open>count\<close> bytes and yields \<open>None\<close> (the null pointer) when there is not that much
  room before it.
\<close>

record ni_buffer =
  base :: "byte list"
  head :: nat
  tail :: nat

definition ni_buffer_head :: "ni_buffer \<Rightarrow> byte list" where
  "ni_buffer_head bp = drop (head bp) (base bp)"

definition ni_buffer_count :: "ni_buffer \<Rightarrow> nat" where
  "ni_buffer_count bp = (if tail bp > head bp then tail bp - head bp else 0)"

definition ni_buffer_push_head :: "ni_buffer \<Rightarrow> nat \<Rightarrow> ni_buffer option" where
  "ni_buffer_push_head bp count = (if head bp < count then None else Some (bp\<lparr>head := head bp - count\<rparr>))"

section \<open>Header codec\<close>

text \<open>
  \<^verbatim>\<open>ni_dhcp_build_send_header(bp, src, dst)\<close>.  The result is \<open>None\<close> where the C code
  would write through a null pointer (no room before the head) or read behind the
  buffer's memory; otherwise the return value 0 and the buffer with both headers written
  before the payload.
\<close>

definition ni_dhcp_build_send_header :: "ni_buffer \<Rightarrow> in_addr \<Rightarrow> in_addr \<Rightarrow> (int \<times> ni_buffer) option" where
  "ni_dhcp_build_send_header bp src dst =
     (let payload = ni_buffer_head bp;
          payload_len = ni_buffer_count bp
      in (case ni_buffer_push_head bp 8 of
            None \<Rightarrow> None
          | Some bp1 \<Rightarrow>
             (let udp_len = ni_buffer_count bp1;
                  udp = \<lparr>uh_sport = htons DHCP_CLIENT_PORT, uh_dport = htons DHCP_SERVER_PORT,
                         uh_ulen = htons (of_nat udp_len), uh_sum = 0\<rparr>
              in (case ni_buffer_push_head bp1 20 of
                    None \<Rightarrow> None
                  | Some bp2 \<Rightarrow>
                     (let ip0 = \<lparr>ip_hl = 5, ip_v = 4, ip_tos = IPTOS_LOWDELAY,
                                 ip_len = htons (of_nat (20 + udp_len)), ip_id = 0,
                                 ip_off = htons IP_DF, ip_ttl = IPDEFTTL, ip_p = IPPROTO_UDP,
                                 ip_sum = 0, ip_src = src,
                                 ip_dst = (if dst = 0 then INADDR_BROADCAST else dst)\<rparr>
                      in (case checksum (ip_bytes ip0) 20 of
                            None \<Rightarrow> None
                          | Some isum \<Rightarrow>
                             (let ip1 = ip0\<lparr>ip_sum := isum\<rparr>
                              in (case ipudp_checksum (ip_bytes ip1) (udphdr_bytes udp) payload payload_len of
                                    None \<Rightarrow> None
                                  | Some usum \<Rightarrow>
                                      Some (0, bp2\<lparr>base := poke (base bp2) (head bp2)
                                        (ip_bytes ip1 @ udphdr_bytes (udp\<lparr>uh_sum := usum\<rparr>))\<rparr>)))))))))"

text \<open>
  \<^verbatim>\<open>check_packet_header(data, bytes, &payload_len)\<close>.  \<open>Null\<close> is the null return
  with the text of the debug message, \<open>Payload p n\<close> the returned pointer \<open>p\<close> with
  the value \<open>n\<close> stored to \<^verbatim>\<open>*payload_len\<close>, and \<open>Bad_read\<close> a read behind the memory
  of \<open>data\<close>, which the C function's callers exclude.
\<close>

datatype verdict = Bad_read | Null string | Payload "byte list" nat

definition check_packet_header :: "byte list \<Rightarrow> nat \<Rightarrow> verdict" where
  "check_packet_header data bytes =
     (if data = [] then Bad_read
      else
        (let iph = ip_of_bytes data;
             ihl = unat (ip_hl iph) * 4
         in if ip_v iph \<noteq> 4 \<or> ihl < 20 then Null ''bad IP header, ignoring''
            else if bytes < ihl then Null ''truncated IP header, ignoring''
            else
              (case checksum data ihl of
                 None \<Rightarrow> Bad_read
               | Some c \<Rightarrow>
                  (if c \<noteq> 0 then Null ''bad IP header checksum, ignoring''
                   else if bytes < unat (ntohs (ip_len iph)) then Null ''truncated IP packet, ignoring''
                   else
                     (let data1 = drop ihl data;
                          bytes1 = bytes - ihl
                      in if ip_p iph \<noteq> IPPROTO_UDP then Null ''unexpected IP protocol, ignoring''
                         else if bytes1 < 8 then Null ''truncated IP packet, ignoring''
                         else
                           (let uh = data1;
                                data2 = drop 8 data1;
                                bytes2 = bytes1 - 8
                            in (case ipudp_checksum data uh data2 bytes2 of
                                  None \<Rightarrow> Bad_read
                                | Some u \<Rightarrow>
                                   (if u \<noteq> 0 then Null ''bad UDP checksum, ignoring''
                                    else Payload data2 (unat (ntohs (ip_len iph)))))))))))"

section \<open>Arithmetic reading of the checksums\<close>

text \<open>
  Three notions used in the proofs only: the sum of the little-endian 16-bit words of a
  byte sequence (an odd last byte counts as a word with high byte zero), the fold on
  natural numbers, the bytes of the pseudo header that \<open>ipudp_checksum\<close> builds, and
  the sum that \<open>ipudp_checksum\<close> folds.
\<close>

fun wsum :: "byte list \<Rightarrow> nat" where
  "wsum (b0 # b1 # data) = unat b0 + 256 * unat b1 + wsum data"
| "wsum [b0] = unat b0"
| "wsum [] = 0"

definition fold_nat :: "nat \<Rightarrow> nat" where
  "fold_nat n = (let s1 = n div 65536 + n mod 65536; s2 = s1 + s1 div 65536 in 65535 - s2 mod 65536)"

definition fake_header :: "byte list \<Rightarrow> byte list \<Rightarrow> byte list" where
  "fake_header iph uh =
     [iph ! 12, iph ! 13, iph ! 14, iph ! 15, iph ! 16, iph ! 17, iph ! 18, iph ! 19,
      0, iph ! 9, uh ! 4, uh ! 5]"

definition udp_sum :: "byte list \<Rightarrow> byte list \<Rightarrow> byte list \<Rightarrow> nat \<Rightarrow> nat" where
  "udp_sum iph uh data L =
     wsum (fake_header iph uh) + wsum (take 8 uh) + wsum (take (L mod 65536) data)"

section \<open>The checksums as the specification words them\<close>

text \<open>
  A second reading of the checksum primitives, written from the words of the
  specification (section 4.A) and not from the source, to compare the source's functions
  with: \<open>spec_words\<close> adds the 16-bit words of a byte sequence in network byte order,
  a trailing odd byte counting as the high byte of a word; \<open>spec_partial\<close> adds them to
  a 32-bit accumulator; \<open>spec_fold\<close> adds the high 16 bits to the low 16 bits twice and
  complements in 16 bits; \<open>spec_ip_checksum\<close> is partial then fold with seed zero;
  \<open>spec_pseudo_header\<close> is source address, destination address, a zero byte, the IP
  protocol and the UDP length, all as they stand in the packet (network order); and
  \<open>spec_udp_checksum\<close> folds the partial sums of pseudo header, UDP header and payload.
  A checksum verifies when the function, applied to data that holds the checksum field,
  gives zero.
\<close>

fun spec_words :: "byte list \<Rightarrow> nat" where
  "spec_words (b0 # b1 # data) = 256 * unat b0 + unat b1 + spec_words data"
| "spec_words [b0] = 256 * unat b0"
| "spec_words [] = 0"

definition spec_partial :: "nat \<Rightarrow> byte list \<Rightarrow> nat" where
  "spec_partial acc data = (acc + spec_words data) mod 4294967296"

definition spec_fold :: "nat \<Rightarrow> nat" where
  "spec_fold acc =
     (let s1 = acc div 65536 + acc mod 65536;
          s2 = s1 div 65536 + s1 mod 65536
      in 65535 - s2 mod 65536)"

definition spec_ip_checksum :: "byte list \<Rightarrow> nat" where
  "spec_ip_checksum header = spec_fold (spec_partial 0 header)"

definition spec_pseudo_header :: "byte list \<Rightarrow> byte list \<Rightarrow> byte list" where
  "spec_pseudo_header iph uh =
     take 4 (drop 12 iph) @ take 4 (drop 16 iph) @ [0, iph ! 9] @ take 2 (drop 4 uh)"

definition spec_udp_checksum :: "byte list \<Rightarrow> byte list \<Rightarrow> byte list \<Rightarrow> nat" where
  "spec_udp_checksum iph uh payload =
     spec_fold (spec_partial (spec_partial (spec_partial 0 (spec_pseudo_header iph uh)) (take 8 uh)) payload)"

section \<open>The BPF classifier programs\<close>

text \<open>
  \<^verbatim>\<open>struct sock_filter\<close> with the macros \<^verbatim>\<open>BPF_STMT\<close> and \<^verbatim>\<open>BPF_JUMP\<close> and the
  opcode constants of \<^verbatim>\<open>linux/filter.h\<close>, and the two programs as the source file
  initialises them.
\<close>

record sock_filter =
  code :: u16
  jt :: byte
  jf :: byte
  k :: u32

definition BPF_STMT :: "u16 \<Rightarrow> u32 \<Rightarrow> sock_filter" where
  "BPF_STMT c v = \<lparr>code = c, jt = 0, jf = 0, k = v\<rparr>"

definition BPF_JUMP :: "u16 \<Rightarrow> u32 \<Rightarrow> byte \<Rightarrow> byte \<Rightarrow> sock_filter" where
  "BPF_JUMP c v t f = \<lparr>code = c, jt = t, jf = f, k = v\<rparr>"

definition BPF_LD :: u16 where "BPF_LD = 0x00"
definition BPF_LDX :: u16 where "BPF_LDX = 0x01"
definition BPF_JMP :: u16 where "BPF_JMP = 0x05"
definition BPF_RET :: u16 where "BPF_RET = 0x06"
definition BPF_H :: u16 where "BPF_H = 0x08"
definition BPF_B :: u16 where "BPF_B = 0x10"
definition BPF_ABS :: u16 where "BPF_ABS = 0x20"
definition BPF_IND :: u16 where "BPF_IND = 0x40"
definition BPF_MSH :: u16 where "BPF_MSH = 0xa0"
definition BPF_JEQ :: u16 where "BPF_JEQ = 0x10"
definition BPF_JSET :: u16 where "BPF_JSET = 0x40"
definition BPF_K :: u16 where "BPF_K = 0x00"

definition ETHERTYPE_IP :: int where "ETHERTYPE_IP = 0x0800"
definition ETHERTYPE_ARP :: int where "ETHERTYPE_ARP = 0x0806"
definition ARPOP_REPLY :: u32 where "ARPOP_REPLY = 2"
definition ETH_HLEN :: u32 where "ETH_HLEN = 14"

definition dhcp_bpf_filter :: "sock_filter list" where
  "dhcp_bpf_filter =
     [BPF_STMT (BPF_LD + BPF_H + BPF_ABS) 12,
      BPF_JUMP (BPF_JMP + BPF_JEQ + BPF_K) (of_int ETHERTYPE_IP) 0 8,
      BPF_STMT (BPF_LD + BPF_B + BPF_ABS) 23,
      BPF_JUMP (BPF_JMP + BPF_JEQ + BPF_K) (ucast IPPROTO_UDP) 0 6,
      BPF_STMT (BPF_LD + BPF_H + BPF_ABS) 20,
      BPF_JUMP (BPF_JMP + BPF_JSET + BPF_K) 0x1fff 4 0,
      BPF_STMT (BPF_LDX + BPF_B + BPF_MSH) 14,
      BPF_STMT (BPF_LD + BPF_H + BPF_IND) 16,
      BPF_JUMP (BPF_JMP + BPF_JEQ + BPF_K) (ucast DHCP_CLIENT_PORT) 0 1,
      BPF_STMT (BPF_RET + BPF_K) 0xffffffff,
      BPF_STMT (BPF_RET + BPF_K) 0]"

definition arp_bpf_filter :: "sock_filter list" where
  "arp_bpf_filter =
     [BPF_STMT (BPF_LD + BPF_H + BPF_ABS) 12,
      BPF_JUMP (BPF_JMP + BPF_JEQ + BPF_K) (of_int ETHERTYPE_ARP) 0 3,
      BPF_STMT (BPF_LD + BPF_H + BPF_ABS) 20,
      BPF_JUMP (BPF_JMP + BPF_JEQ + BPF_K) ARPOP_REPLY 0 1,
      BPF_STMT (BPF_RET + BPF_K) 0xffffffff,
      BPF_STMT (BPF_RET + BPF_K) 0]"

text \<open>
  The kernel's classic BPF machine, for the seven instructions the two programs are made
  of: accumulator \<open>A\<close>, index register \<open>X\<close>, program counter \<open>pc\<close>.  Packet loads
  are big-endian; a load behind the end of the packet ends the run with 0 (the packet is
  dropped); a jump adds \<open>jt\<close> or \<open>jf\<close> to the incremented program counter; \<^verbatim>\<open>RET\<close>
  ends the run with the number of bytes to keep, 0 for none.  The result is \<open>None\<close> for
  an instruction outside this fragment, for a load offset of \<open>2^31\<close> or more (the
  kernel's ancillary loads) and for a program counter behind the program.
\<close>

definition bpf_ldh :: "byte list \<Rightarrow> nat \<Rightarrow> u32" where
  "bpf_ldh pkt off = ucast (load16 (pkt ! (off + 1)) (pkt ! off))"

definition bpf_ldb :: "byte list \<Rightarrow> nat \<Rightarrow> u32" where
  "bpf_ldb pkt off = ucast (pkt ! off)"

function bpf_run :: "sock_filter list \<Rightarrow> byte list \<Rightarrow> u32 \<Rightarrow> u32 \<Rightarrow> nat \<Rightarrow> u32 option" where
  "bpf_run prog pkt A X pc =
     (if length prog \<le> pc then None
      else
        (let insn = prog ! pc; c = code insn
         in if c = BPF_LD + BPF_H + BPF_ABS then
              (if 2147483648 \<le> unat (k insn) then None
               else if length pkt < unat (k insn) + 2 then Some 0
               else bpf_run prog pkt (bpf_ldh pkt (unat (k insn))) X (pc + 1))
            else if c = BPF_LD + BPF_B + BPF_ABS then
              (if 2147483648 \<le> unat (k insn) then None
               else if length pkt < unat (k insn) + 1 then Some 0
               else bpf_run prog pkt (bpf_ldb pkt (unat (k insn))) X (pc + 1))
            else if c = BPF_LD + BPF_H + BPF_IND then
              (if 2147483648 \<le> unat (X + k insn) then None
               else if length pkt < unat (X + k insn) + 2 then Some 0
               else bpf_run prog pkt (bpf_ldh pkt (unat (X + k insn))) X (pc + 1))
            else if c = BPF_LDX + BPF_B + BPF_MSH then
              (if 2147483648 \<le> unat (k insn) then None
               else if length pkt < unat (k insn) + 1 then Some 0
               else bpf_run prog pkt A (push_bit 2 (bpf_ldb pkt (unat (k insn)) AND 0x0f)) (pc + 1))
            else if c = BPF_JMP + BPF_JEQ + BPF_K then
              bpf_run prog pkt A X (pc + 1 + unat (if A = k insn then jt insn else jf insn))
            else if c = BPF_JMP + BPF_JSET + BPF_K then
              bpf_run prog pkt A X (pc + 1 + unat (if A AND k insn \<noteq> 0 then jt insn else jf insn))
            else if c = BPF_RET + BPF_K then Some (k insn)
            else None))"
  by pat_completeness auto
termination
  by (relation "measure (\<lambda>(prog, pkt, A, X, pc). length prog - pc)") auto

text \<open>A socket filter passes a packet when the program returns a non-zero length.\<close>

definition bpf_accepts :: "sock_filter list \<Rightarrow> byte list \<Rightarrow> bool" where
  "bpf_accepts prog pkt = (case bpf_run prog pkt 0 0 0 of None \<Rightarrow> False | Some r \<Rightarrow> r \<noteq> 0)"

text \<open>
  The patch that \<^verbatim>\<open>ni_capture_set_filter\<close> applies to the two arrays on its first call:
  the \<^verbatim>\<open>jf\<close> of the EtherType comparison is cleared and \<^verbatim>\<open>ETH_HLEN\<close> is subtracted from
  the \<^verbatim>\<open>k\<close> of the listed loads.
\<close>

definition set_jf :: "sock_filter list \<Rightarrow> nat \<Rightarrow> byte \<Rightarrow> sock_filter list" where
  "set_jf prog i v = prog[i := (prog ! i)\<lparr>jf := v\<rparr>]"

definition sub_k :: "sock_filter list \<Rightarrow> nat \<Rightarrow> u32 \<Rightarrow> sock_filter list" where
  "sub_k prog i v = prog[i := (prog ! i)\<lparr>k := k (prog ! i) - v\<rparr>]"

text \<open>
  Views of a link-layer frame used to state what the programs test: the EtherType of the
  Ethernet header (bytes 12 and 13, network order) and the two masks of
  \<^verbatim>\<open>netinet/ip.h\<close> for the flags/offset word of the IP header.
\<close>

definition ether_type :: "byte list \<Rightarrow> u16" where
  "ether_type frame = ntohs (load16 (frame ! 12) (frame ! 13))"

definition IP_MF :: u16 where "IP_MF = 0x2000"
definition IP_OFFMASK :: u16 where "IP_OFFMASK = 0x1fff"

text \<open>
  The two arrays after the patch, under names of their own for the proofs.
\<close>

definition cooked_dhcp_filter :: "sock_filter list" where
  "cooked_dhcp_filter =
     sub_k (sub_k (sub_k (sub_k (set_jf dhcp_bpf_filter 1 0) 2 ETH_HLEN) 4 ETH_HLEN) 6 ETH_HLEN) 7 ETH_HLEN"

definition cooked_arp_filter :: "sock_filter list" where
  "cooked_arp_filter = sub_k (set_jf arp_bpf_filter 1 0) 2 ETH_HLEN"

section \<open>Devices, captures, sockets and the kernel\<close>

text \<open>
  The adapters work on three kinds of objects that point to each other: the DHCP device
  (\<^verbatim>\<open>ni_dhcp_device_t\<close>), its capture (\<^verbatim>\<open>struct ni_capture\<close>) and the capture's socket
  (\<^verbatim>\<open>ni_socket_t\<close>).  They live in a store, one partial map per kind; a pointer is an
  address or null (\<open>None\<close>).  Fields carry the name of their structure as a prefix.
  Function pointers are the names of the four callbacks of the source file.
\<close>

type_synonym ptr = nat

record timeval =
  tv_sec :: int
  tv_usec :: int

definition timerclear :: timeval where
  "timerclear = \<lparr>tv_sec = 0, tv_usec = 0\<rparr>"

definition timerisset :: "timeval \<Rightarrow> bool" where
  "timerisset tv = (tv_sec tv \<noteq> 0 \<or> tv_usec tv \<noteq> 0)"

text \<open>\<^verbatim>\<open>timercmp(a, b, <)\<close>\<close>

definition timercmp_lt :: "timeval \<Rightarrow> timeval \<Rightarrow> bool" where
  "timercmp_lt a b = (if tv_sec a = tv_sec b then tv_usec a < tv_usec b else tv_sec a < tv_sec b)"

datatype callback =
    Fn_ni_dhcp_socket_recv
  | Fn_ni_arp_socket_recv
  | Fn_ni_dhcp_socket_get_timeout
  | Fn_ni_dhcp_socket_check_timeout

record ni_socket =
  sock_fd :: int
  sock_error :: bool
  sock_active :: bool
  sock_user_data :: "ptr option"
  sock_data_ready :: "callback option"
  sock_get_timeout :: "callback option"
  sock_check_timeout :: "callback option"

record sockaddr_ll =
  sll_family :: int
  sll_protocol :: u16
  sll_ifindex :: int
  sll_hatype :: u16
  sll_halen :: nat
  sll_addr :: "byte list"

record ni_capture =
  cap_dev :: "ptr option"
  cap_sock :: "ptr option"
  cap_protocol :: int
  cap_sll :: sockaddr_ll
  cap_buffer :: "byte list"
  cap_mtu :: nat

record ni_dhcp_device =
  dev_ifname :: string
  dev_listen_fd :: int
  dev_capture :: "ptr option"
  dev_ifindex :: int
  dev_iftype :: int
  dev_arp_type :: int
  dev_mtu :: nat
  dev_retrans_deadline :: timeval

text \<open>
  What the code asks of the kernel, and what the run leaves behind: the system calls
  with their results and the calls into the DHCP state machine, in order.  Log output
  (\<^verbatim>\<open>ni_error\<close>, \<^verbatim>\<open>ni_debug_dhcp\<close>) is left out.
\<close>

datatype sockopt =
    SO_REUSEADDR
  | SO_RCVBUF
  | SO_BINDTODEVICE string
  | SO_ATTACH_FILTER "sock_filter list"

datatype syscall =
    Socket_inet_dgram_udp
  | Socket_packet_dgram u16
  | Setsockopt int sockopt
  | Bind_inet int u16
  | Bind_packet int u16 int
  | Fcntl_cloexec int
  | Close int
  | Read int nat

datatype event =
    Syscall syscall int
  | Fsm_retransmit ptr
  | Fsm_process_dhcp_packet ptr ni_buffer
  | Fsm_process_arp_packet ptr ni_buffer

text \<open>
  The environment decides what the code cannot: the result of each system call (given
  the number of events so far and the call), the datagram a \<^verbatim>\<open>read\<close> delivers (\<open>None\<close>
  for a failing read), the broadcast address of a hardware type
  (\<^verbatim>\<open>ni_link_address_get_broadcast\<close>, \<open>None\<close> when it fails), and the constant
  \<^verbatim>\<open>MTU_MAX\<close>, whose definition is not in the source files at hand.
\<close>

record env =
  sys_result :: "nat \<Rightarrow> syscall \<Rightarrow> int"
  rx :: "nat \<Rightarrow> byte list option"
  link_broadcast :: "int \<Rightarrow> byte list option"
  MTU_MAX :: nat

text \<open>
  The state of the process: the store, the next free address, the three statics of
  \<^verbatim>\<open>ni_capture_set_filter\<close> (the flag \<^verbatim>\<open>done\<close> and the two filter arrays, which the
  function patches in place), and the events so far.
\<close>

record world =
  devices :: "ptr \<rightharpoonup> ni_dhcp_device"
  captures :: "ptr \<rightharpoonup> ni_capture"
  sockets :: "ptr \<rightharpoonup> ni_socket"
  brk :: ptr
  filters_done :: int
  dhcp_filter :: "sock_filter list"
  arp_filter :: "sock_filter list"
  trace :: "event list"

definition sys :: "env \<Rightarrow> world \<Rightarrow> syscall \<Rightarrow> int \<times> world" where
  "sys e w c =
     (let r = sys_result e (length (trace w)) c
      in (r, w\<lparr>trace := trace w @ [Syscall c r]\<rparr>))"

text \<open>
  \<^verbatim>\<open>read(fd, buf, count)\<close>: the datagram, cut to \<open>count\<close> bytes, overwrites the start
  of the buffer; the result is the number of bytes written, or -1.
\<close>

definition sys_read :: "env \<Rightarrow> world \<Rightarrow> int \<Rightarrow> byte list \<Rightarrow> nat \<Rightarrow> int \<times> byte list \<times> world" where
  "sys_read e w fd0 buf count =
     (case rx e (length (trace w)) of
        None \<Rightarrow> (- 1, buf, w\<lparr>trace := trace w @ [Syscall (Read fd0 count) (- 1)]\<rparr>)
      | Some dgram \<Rightarrow>
          (let n = min (length dgram) count
           in (int n, take n dgram @ drop n buf,
               w\<lparr>trace := trace w @ [Syscall (Read fd0 count) (int n)]\<rparr>)))"

text \<open>
  Modelled from the spec: the socket wrapper and the reader are declared outside the
  source files at hand.  The spec's socket wrapper holds a raw file descriptor, the
  optional hooks, an opaque user pointer and an error flag; activating registers it with
  the event loop; closing it closes the descriptor and takes it out of the loop.  A
  reader wraps a pointer and a length.
\<close>

definition ni_socket_wrap :: "int \<Rightarrow> ni_socket" where
  "ni_socket_wrap fd0 =
     \<lparr>sock_fd = fd0, sock_error = False, sock_active = False, sock_user_data = None,
      sock_data_ready = None, sock_get_timeout = None, sock_check_timeout = None\<rparr>"

definition ni_socket_activate :: "ni_socket \<Rightarrow> ni_socket" where
  "ni_socket_activate s = s\<lparr>sock_active := True\<rparr>"

definition ni_socket_close :: "env \<Rightarrow> world \<Rightarrow> ptr \<Rightarrow> world option" where
  "ni_socket_close e w sp =
     (case sockets w sp of
        None \<Rightarrow> None
      | Some s \<Rightarrow>
          (let (r, w1) = sys e w (Close (sock_fd s))
           in Some (w1\<lparr>sockets := (sockets w1)(sp := None)\<rparr>)))"

definition ni_buffer_init_reader :: "byte list \<Rightarrow> nat \<Rightarrow> ni_buffer" where
  "ni_buffer_init_reader data len = \<lparr>base = data, head = 0, tail = len\<rparr>"

section \<open>The capture handle\<close>

text \<open>
  In all functions below the result \<open>None\<close> stands for a dereference of a pointer that
  is null or not in the store, where the C code has no check.
\<close>

text \<open>\<^verbatim>\<open>ni_capture_free(capture)\<close>\<close>

definition ni_capture_free :: "env \<Rightarrow> world \<Rightarrow> ptr \<Rightarrow> world option" where
  "ni_capture_free e w cp =
     (case captures w cp of
        None \<Rightarrow> None
      | Some cap \<Rightarrow>
          (case (case cap_sock cap of None \<Rightarrow> Some w | Some sp \<Rightarrow> ni_socket_close e w sp) of
             None \<Rightarrow> None
           | Some w1 \<Rightarrow> Some (w1\<lparr>captures := (captures w1)(cp := None)\<rparr>)))"

text \<open>
  \<^verbatim>\<open>ni_capture_set_filter(cap, protocol)\<close>: on the first call (\<^verbatim>\<open>done\<close> is 0) the two
  arrays are patched for cooked packets; then the array for the protocol is attached to
  the capture's socket.
\<close>

definition ni_capture_set_filter :: "env \<Rightarrow> world \<Rightarrow> ptr \<Rightarrow> int \<Rightarrow> (int \<times> world) option" where
  "ni_capture_set_filter e w cp protocol =
     (let w1 = (if filters_done w = 0 then
                  w\<lparr>dhcp_filter :=
                      sub_k (sub_k (sub_k (sub_k (set_jf (dhcp_filter w) 1 0) 2 ETH_HLEN) 4 ETH_HLEN)
                        6 ETH_HLEN) 7 ETH_HLEN,
                    arp_filter := sub_k (set_jf (arp_filter w) 1 0) 2 ETH_HLEN,
                    filters_done := 1\<rparr>
                else w);
          pf = (if protocol = ETHERTYPE_ARP then arp_filter w1 else dhcp_filter w1)
      in (case captures w1 cp of
            None \<Rightarrow> None
          | Some cap \<Rightarrow>
             (case cap_sock cap of
                None \<Rightarrow> None
              | Some sp \<Rightarrow>
                 (case sockets w1 sp of
                    None \<Rightarrow> None
                  | Some s \<Rightarrow>
                     (let (r, w2) = sys e w1 (Setsockopt (sock_fd s) (SO_ATTACH_FILTER pf))
                      in if r < 0 then Some (- 1, w2) else Some (0, w2))))))"

text \<open>
  \<^verbatim>\<open>ni_capture_open(dev, protocol, data_ready)\<close>: the result is the new capture or the
  null pointer.  \<^verbatim>\<open>calloc\<close> takes the next free address for the capture and
  \<^verbatim>\<open>ni_socket_wrap\<close> the one after it; the memory of \<^verbatim>\<open>malloc(capture->mtu)\<close> is
  indeterminate in C and zero here.
\<close>

definition ni_capture_open :: "env \<Rightarrow> world \<Rightarrow> ptr \<Rightarrow> int \<Rightarrow> callback \<Rightarrow> (ptr option \<times> world) option" where
  "ni_capture_open e w dp protocol data_ready =
     (case devices w dp of
        None \<Rightarrow> None
      | Some dev \<Rightarrow>
         (if dev_ifindex dev = 0 then Some (None, w)
          else
            (case link_broadcast e (dev_iftype dev) of
               None \<Rightarrow> Some (None, w)
             | Some brdaddr \<Rightarrow>
                (let (fd0, w1) = sys e w (Socket_packet_dgram (htons (of_int protocol)))
                 in if fd0 < 0 then Some (None, w1)
                    else
                      (let (r0, w2) = sys e w1 (Fcntl_cloexec fd0);
                           cp = brk w2;
                           sp = brk w2 + 1;
                           cap = \<lparr>cap_dev = None, cap_sock = Some sp, cap_protocol = protocol,
                                  cap_sll = \<lparr>sll_family = 17, sll_protocol = htons (of_int protocol),
                                             sll_ifindex = dev_ifindex dev,
                                             sll_hatype = htons (of_int (dev_arp_type dev)),
                                             sll_halen = length brdaddr, sll_addr = brdaddr\<rparr>,
                                  cap_buffer = [], cap_mtu = 0\<rparr>;
                           w3 = w2\<lparr>brk := brk w2 + 2,
                                   captures := (captures w2)(cp \<mapsto> cap),
                                   sockets := (sockets w2)(sp \<mapsto> ni_socket_wrap fd0)\<rparr>
                       in (case ni_capture_set_filter e w3 cp protocol of
                             None \<Rightarrow> None
                           | Some (r1, w4) \<Rightarrow>
                              (if r1 < 0 then
                                 (case ni_capture_free e w4 cp of
                                    None \<Rightarrow> None
                                  | Some w5 \<Rightarrow> Some (None, w5))
                               else
                                 (let (r2, w5) = sys e w4 (Bind_packet fd0 (htons (of_int protocol)) (dev_ifindex dev))
                                  in if r2 = - 1 then
                                       (case ni_capture_free e w5 cp of
                                          None \<Rightarrow> None
                                        | Some w6 \<Rightarrow> Some (None, w6))
                                     else
                                       (let mtu = (if dev_mtu dev = 0 then MTU_MAX e else dev_mtu dev);
                                            cap1 = cap\<lparr>cap_mtu := mtu, cap_buffer := replicate mtu 0\<rparr>;
                                            s1 = ni_socket_activate
                                                   ((ni_socket_wrap fd0)\<lparr>sock_data_ready := Some data_ready,
                                                                          sock_user_data := Some cp\<rparr>)
                                        in Some (Some cp,
                                             w5\<lparr>captures := (captures w5)(cp \<mapsto> cap1),
                                                sockets := (sockets w5)(sp \<mapsto> s1)\<rparr>))))))))))"

section \<open>The client adapters\<close>

text \<open>
  \<^verbatim>\<open>__ni_dhcp_socket_get_timeout(sock, tv)\<close>: the return value and the time value left
  in \<^verbatim>\<open>*tv\<close>.
\<close>

definition ni_dhcp_socket_get_timeout :: "world \<Rightarrow> ptr \<Rightarrow> timeval \<Rightarrow> (int \<times> timeval) option" where
  "ni_dhcp_socket_get_timeout w sp tv =
     (case sockets w sp of
        None \<Rightarrow> None
      | Some s \<Rightarrow>
         (case sock_user_data s of
            None \<Rightarrow> Some (- 1, tv)
          | Some cp \<Rightarrow>
             (case captures w cp of
                None \<Rightarrow> None
              | Some cap \<Rightarrow>
                 (case cap_dev cap of
                    None \<Rightarrow> Some (- 1, tv)
                  | Some dp \<Rightarrow>
                     (case devices w dp of
                        None \<Rightarrow> None
                      | Some dev \<Rightarrow>
                         (let tv1 = timerclear;
                              tv2 = (if timerisset (dev_retrans_deadline dev)
                                     then dev_retrans_deadline dev else tv1)
                          in Some (if timerisset tv2 then 0 else - 1, tv2)))))))"

text \<open>
  \<^verbatim>\<open>__ni_dhcp_socket_check_timeout(sock, now)\<close>.  \<^verbatim>\<open>ni_dhcp_device_retransmit\<close>
  belongs to the state machine; the call is recorded, what it does to the device is not
  part of this file.
\<close>

definition ni_dhcp_device_retransmit :: "world \<Rightarrow> ptr \<Rightarrow> world" where
  "ni_dhcp_device_retransmit w dp = w\<lparr>trace := trace w @ [Fsm_retransmit dp]\<rparr>"

definition ni_dhcp_socket_check_timeout :: "world \<Rightarrow> ptr \<Rightarrow> timeval \<Rightarrow> world option" where
  "ni_dhcp_socket_check_timeout w sp now =
     (case sockets w sp of
        None \<Rightarrow> None
      | Some s \<Rightarrow>
         (case sock_user_data s of
            None \<Rightarrow> Some w
          | Some cp \<Rightarrow>
             (case captures w cp of
                None \<Rightarrow> None
              | Some cap \<Rightarrow>
                 (case cap_dev cap of
                    None \<Rightarrow> Some w
                  | Some dp \<Rightarrow>
                     (case devices w dp of
                        None \<Rightarrow> None
                      | Some dev \<Rightarrow>
                         (if timerisset (dev_retrans_deadline dev) \<and>
                             timercmp_lt (dev_retrans_deadline dev) now
                          then Some (ni_dhcp_device_retransmit w dp)
                          else Some w))))))"

text \<open>\<^verbatim>\<open>__ni_dhcp_common_open(dev, protocol, data_ready)\<close>\<close>

definition ni_dhcp_common_open :: "env \<Rightarrow> world \<Rightarrow> ptr \<Rightarrow> int \<Rightarrow> callback \<Rightarrow> (int \<times> world) option" where
  "ni_dhcp_common_open e w dp protocol data_ready =
     (case devices w dp of
        None \<Rightarrow> None
      | Some dev \<Rightarrow>
         (let reuse =
                (case dev_capture dev of
                   None \<Rightarrow> Some (False, w)
                 | Some cp \<Rightarrow>
                    (case captures w cp of
                       None \<Rightarrow> None
                     | Some cap \<Rightarrow>
                        (case (case cap_sock cap of
                                 None \<Rightarrow> Some False
                               | Some sp \<Rightarrow>
                                  (case sockets w sp of
                                     None \<Rightarrow> None
                                   | Some s \<Rightarrow> Some (\<not> sock_error s \<and> cap_protocol cap = protocol))) of
                           None \<Rightarrow> None
                         | Some True \<Rightarrow> Some (True, w)
                         | Some False \<Rightarrow>
                            (case ni_capture_free e w cp of
                               None \<Rightarrow> None
                             | Some w1 \<Rightarrow>
                                 Some (False, w1\<lparr>devices := (devices w1)(dp \<mapsto> dev\<lparr>dev_capture := None\<rparr>)\<rparr>)))))
          in (case reuse of
                None \<Rightarrow> None
              | Some (True, w1) \<Rightarrow> Some (0, w1)
              | Some (False, w1) \<Rightarrow>
                 (case ni_capture_open e w1 dp protocol data_ready of
                    None \<Rightarrow> None
                  | Some (None, w2) \<Rightarrow> Some (- 1, w2)
                  | Some (Some cp, w2) \<Rightarrow>
                     (case captures w2 cp of
                        None \<Rightarrow> None
                      | Some cap \<Rightarrow>
                         (case cap_sock cap of
                            None \<Rightarrow> None
                          | Some sp \<Rightarrow>
                             (case sockets w2 sp of
                                None \<Rightarrow> None
                              | Some s \<Rightarrow>
                                 (case devices w2 dp of
                                    None \<Rightarrow> None
                                  | Some dev2 \<Rightarrow>
                                     Some (0,
                                       w2\<lparr>sockets := (sockets w2)(sp \<mapsto>
                                              s\<lparr>sock_get_timeout := Some Fn_ni_dhcp_socket_get_timeout,
                                                sock_check_timeout := Some Fn_ni_dhcp_socket_check_timeout\<rparr>),
                                           devices := (devices w2)(dp \<mapsto> dev2\<lparr>dev_capture := Some cp\<rparr>),
                                           captures := (captures w2)(cp \<mapsto> cap\<lparr>cap_dev := Some dp\<rparr>)\<rparr>)))))))))"

text \<open>
  \<^verbatim>\<open>ni_dhcp_socket_recv(sock)\<close>: the debug message reads \<^verbatim>\<open>capture->dev->ifname\<close>, so
  capture and device are dereferenced first.
\<close>

definition ni_dhcp_socket_recv :: "env \<Rightarrow> world \<Rightarrow> ptr \<Rightarrow> world option" where
  "ni_dhcp_socket_recv e w sp =
     (case sockets w sp of
        None \<Rightarrow> None
      | Some s \<Rightarrow>
         (case sock_user_data s of
            None \<Rightarrow> None
          | Some cp \<Rightarrow>
             (case captures w cp of
                None \<Rightarrow> None
              | Some cap \<Rightarrow>
                 (case cap_dev cap of
                    None \<Rightarrow> None
                  | Some dp \<Rightarrow>
                     (case devices w dp of
                        None \<Rightarrow> None
                      | Some dev \<Rightarrow>
                         (let (bytes, buf, w1) = sys_read e w (sock_fd s) (cap_buffer cap) (cap_mtu cap);
                              w2 = w1\<lparr>captures := (captures w1)(cp \<mapsto> cap\<lparr>cap_buffer := buf\<rparr>)\<rparr>
                          in if bytes < 0 then Some w2
                             else
                               (case check_packet_header buf (nat bytes) of
                                  Bad_read \<Rightarrow> None
                                | Null msg \<Rightarrow> Some w2
                                | Payload payload payload_len \<Rightarrow>
                                    Some (w2\<lparr>trace := trace w2 @
                                      [Fsm_process_dhcp_packet dp
                                         (ni_buffer_init_reader payload payload_len)]\<rparr>))))))))"

text \<open>\<^verbatim>\<open>ni_dhcp_socket_open(dev)\<close>\<close>

definition ni_dhcp_socket_open :: "env \<Rightarrow> world \<Rightarrow> ptr \<Rightarrow> (int \<times> world) option" where
  "ni_dhcp_socket_open e w dp =
     (case devices w dp of
        None \<Rightarrow> None
      | Some dev \<Rightarrow>
         (if dev_listen_fd dev = - 1 then
            (let (fd0, w1) = sys e w Socket_inet_dgram_udp
             in if fd0 = - 1 then Some (- 1, w1)
                else
                  (let (r1, w2) = sys e w1 (Setsockopt fd0 SO_REUSEADDR);
                       (r2, w3) = sys e w2 (Setsockopt fd0 SO_RCVBUF);
                       (r3, w4) = sys e w3 (Setsockopt fd0 (SO_BINDTODEVICE (dev_ifname dev)));
                       (r4, w5) = sys e w4 (Bind_inet fd0 (htons DHCP_CLIENT_PORT))
                   in if r4 = - 1 then
                        (let (r5, w6) = sys e w5 (Close fd0)
                         in ni_dhcp_common_open e w6 dp ETHERTYPE_IP Fn_ni_dhcp_socket_recv)
                      else
                        (let w6 = w5\<lparr>devices := (devices w5)(dp \<mapsto> dev\<lparr>dev_listen_fd := fd0\<rparr>)\<rparr>;
                             (r5, w7) = sys e w6 (Fcntl_cloexec fd0)
                         in ni_dhcp_common_open e w7 dp ETHERTYPE_IP Fn_ni_dhcp_socket_recv)))
          else ni_dhcp_common_open e w dp ETHERTYPE_IP Fn_ni_dhcp_socket_recv))"

text \<open>\<^verbatim>\<open>ni_arp_socket_recv(sock)\<close>\<close>

definition ni_arp_socket_recv :: "env \<Rightarrow> world \<Rightarrow> ptr \<Rightarrow> world option" where
  "ni_arp_socket_recv e w sp =
     (case sockets w sp of
        None \<Rightarrow> None
      | Some s \<Rightarrow>
         (case sock_user_data s of
            None \<Rightarrow> None
          | Some cp \<Rightarrow>
             (case captures w cp of
                None \<Rightarrow> None
              | Some cap \<Rightarrow>
                 (case cap_dev cap of
                    None \<Rightarrow> None
                  | Some dp \<Rightarrow>
                     (case devices w dp of
                        None \<Rightarrow> None
                      | Some dev \<Rightarrow>
                         (let (bytes, buf, w1) = sys_read e w (sock_fd s) (cap_buffer cap) (cap_mtu cap);
                              w2 = w1\<lparr>captures := (captures w1)(cp \<mapsto> cap\<lparr>cap_buffer := buf\<rparr>)\<rparr>
                          in if bytes < 0 then Some w2
                             else
                               Some (w2\<lparr>trace := trace w2 @
                                 [Fsm_process_arp_packet dp
                                    (ni_buffer_init_reader buf (cap_mtu cap))]\<rparr>)))))))"

text \<open>\<^verbatim>\<open>ni_arp_socket_open(dev)\<close>\<close>

definition ni_arp_socket_open :: "env \<Rightarrow> world \<Rightarrow> ptr \<Rightarrow> (int \<times> world) option" where
  "ni_arp_socket_open e w dp = ni_dhcp_common_open e w dp ETHERTYPE_ARP Fn_ni_arp_socket_recv"

text \<open>
  A process calls \<^verbatim>\<open>ni_capture_set_filter\<close> any number of times, each time for some
  capture and protocol; \<open>set_filter_calls\<close> runs such a sequence and stops at a call
  through an invalid pointer.
\<close>

fun set_filter_calls :: "env \<Rightarrow> world \<Rightarrow> (ptr \<times> int) list \<Rightarrow> world option" where
  "set_filter_calls e w [] = Some w"
| "set_filter_calls e w ((cp, protocol) # calls) =
     (case ni_capture_set_filter e w cp protocol of
        None \<Rightarrow> None
      | Some (r, w1) \<Rightarrow> set_filter_calls e w1 calls)"

text \<open>The statics as the program starts: nothing patched yet.\<close>

definition initial_statics :: "world \<Rightarrow> bool" where
  "initial_statics w =
     (filters_done w = 0 \<and> dhcp_filter w = dhcp_bpf_filter \<and> arp_filter w = arp_bpf_filter)"

text \<open>A time value in microseconds.\<close>

definition usecs :: "timeval \<Rightarrow> int" where
  "usecs tv = tv_sec tv * 1000000 + tv_usec tv"

section \<open>Example states\<close>

text \<open>
  Concrete inputs for the instances below: an environment in which every system call
  succeeds (descriptor 3 for the UDP socket, 4 for the packet socket) and a
  \<^verbatim>\<open>read\<close> delivers a 28-byte ARP reply; and a process with the device \<^verbatim>\<open>eth0\<close> at
  address 0, its capture at address 1 and the capture's socket (descriptor 5) at
  address 2, the filter arrays not yet patched.
\<close>

definition example_env :: env where
  "example_env =
     \<lparr>sys_result = (\<lambda>n c. case c of Socket_inet_dgram_udp \<Rightarrow> 3 | Socket_packet_dgram p \<Rightarrow> 4 | _ \<Rightarrow> 0),
      rx = (\<lambda>n. Some [0, 1, 8, 0, 6, 4, 0, 2, 0, 17, 34, 51, 68, 85, 192, 0, 2, 1,
                       0, 17, 34, 51, 68, 102, 192, 0, 2, 7]),
      link_broadcast = (\<lambda>t. Some [255, 255, 255, 255, 255, 255]),
      MTU_MAX = 1500\<rparr>"

definition example_device :: ni_dhcp_device where
  "example_device =
     \<lparr>dev_ifname = ''eth0'', dev_listen_fd = 3, dev_capture = Some 1, dev_ifindex = 2,
      dev_iftype = 1, dev_arp_type = 1, dev_mtu = 1500,
      dev_retrans_deadline = \<lparr>tv_sec = 1700000000, tv_usec = 250000\<rparr>\<rparr>"

definition example_capture :: "int \<Rightarrow> ni_capture" where
  "example_capture protocol =
     \<lparr>cap_dev = Some 0, cap_sock = Some 2, cap_protocol = protocol,
      cap_sll = \<lparr>sll_family = 17, sll_protocol = htons (of_int protocol), sll_ifindex = 2,
                 sll_hatype = htons 1, sll_halen = 6,
                 sll_addr = [255, 255, 255, 255, 255, 255]\<rparr>,
      cap_buffer = replicate 1500 0, cap_mtu = 1500\<rparr>"

definition example_socket :: "callback \<Rightarrow> ni_socket" where
  "example_socket cb =
     \<lparr>sock_fd = 5, sock_error = False, sock_active = True, sock_user_data = Some 1,
      sock_data_ready = Some cb,
      sock_get_timeout = Some Fn_ni_dhcp_socket_get_timeout,
      sock_check_timeout = Some Fn_ni_dhcp_socket_check_timeout\<rparr>"

definition example_world :: "int \<Rightarrow> callback \<Rightarrow> world" where
  "example_world protocol cb =
     \<lparr>devices = [0 \<mapsto> example_device],
      captures = [1 \<mapsto> example_capture protocol],
      sockets = [2 \<mapsto> example_socket cb],
      brk = 3, filters_done = 0, dhcp_filter = dhcp_bpf_filter, arp_filter = arp_bpf_filter,
      trace = []\<rparr>"

text \<open>The same device before its first open: no capture, no listening socket.\<close>

definition fresh_world :: world where
  "fresh_world =
     \<lparr>devices = [0 \<mapsto> example_device\<lparr>dev_listen_fd := - 1, dev_capture := None\<rparr>],
      captures = Map.empty, sockets = Map.empty,
      brk = 1, filters_done = 0, dhcp_filter = dhcp_bpf_filter, arp_filter = arp_bpf_filter,
      trace = []\<rparr>"

text \<open>
  Two environments in which the set-up of the dummy UDP socket fails: in the first
  \<^verbatim>\<open>socket\<close> fails, in the second \<^verbatim>\<open>bind\<close>; all other calls succeed.
\<close>

definition env_socket_fails :: env where
  "env_socket_fails =
     example_env\<lparr>sys_result :=
       (\<lambda>n c. case c of Socket_inet_dgram_udp \<Rightarrow> - 1 | Socket_packet_dgram p \<Rightarrow> 4 | _ \<Rightarrow> 0)\<rparr>"

definition env_bind_fails :: env where
  "env_bind_fails =
     example_env\<lparr>sys_result :=
       (\<lambda>n c. case c of Socket_inet_dgram_udp \<Rightarrow> 3 | Socket_packet_dgram p \<Rightarrow> 4
                | Bind_inet fd0 port \<Rightarrow> - 1 | _ \<Rightarrow> 0)\<rparr>"

text \<open>
  A frame with link-layer padding: the 32-byte IP packet from 192.0.2.1 port 67 to
  255.255.255.255 port 68 with the payload \<open>de ad be ef\<close> (IP total length 32, UDP
  length 12), followed by 14 bytes of padding, the second of them 1, as a capture of a
  minimum-size Ethernet frame delivers it.  Its UDP checksum field holds \<open>0x9faf\<close>;
  the UDP checksum of the packet is \<open>0x9fb0\<close>.
\<close>

definition padded_frame :: "byte list" where
  "padded_frame =
     [69, 0, 0, 32, 0, 0, 64, 0, 64, 17, 120, 204, 192, 0, 2, 1, 255, 255, 255, 255,
      0, 67, 0, 68, 0, 12, 159, 175,
      222, 173, 190, 239,
      0, 1, 0, 0, 0, 0, 0, 0, 0, 0, 0, 0, 0, 0]"

section \<open>Bytes, words and the checksum as arithmetic\<close>

lemma unat_byte_less: "unat (a::byte) < 256"
  using unsigned_less[of a, where 'a=nat] by simp

lemma unat_u16_less: "unat (a::u16) < 65536"
  using unsigned_less[of a, where 'a=nat] by simp

lemma unat_u32_less: "unat (a::u32) < 4294967296"
  using unsigned_less[of a, where 'a=nat] by simp

lemma unat_ucast_8_16: "unat (ucast (a::byte) :: u16) = unat a"
  using unat_byte_less[of a] by (simp add: unsigned_ucast_eq take_bit_nat_eq_self)

lemma unat_ucast_16_32: "unat (ucast (a::u16) :: u32) = unat a"
  using unat_u16_less[of a] by (simp add: unsigned_ucast_eq take_bit_nat_eq_self)

lemma load16_add: "load16 a b = ucast a + push_bit 8 (ucast b)"
  unfolding load16_def
  apply (rule disjunctive_add_eq_or[symmetric])
   apply (rule bit_word_eqI)
  apply (auto simp: bit_simps dest: bit_imp_le_length)
  done

lemma unat_load16: "unat (load16 a b) = unat a + 256 * unat b"
  using unat_byte_less[of a] unat_byte_less[of b]
  by (simp add: load16_add unat_word_ariths(1,2) push_bit_eq_mult unat_ucast_8_16)

lemma htons_add: "htons w = push_bit 8 w + drop_bit 8 w"
  unfolding htons_def
  apply (rule disjunctive_add_eq_or[symmetric])
   apply (rule bit_word_eqI)
  apply (auto simp: bit_simps dest: bit_imp_le_length)
  done

lemma unat_htons: "unat (htons w) = (unat w mod 256) * 256 + unat w div 256"
proof -
  have w: "unat w < 65536" by (rule unat_u16_less)
  have a: "unat (push_bit 8 w) = (unat w mod 256) * 256"
  proof -
    have "unat (push_bit 8 w) = (unat w * 256) mod (256 * 256)"
      by (simp add: push_bit_eq_mult unat_word_ariths(2))
    then show ?thesis by (simp only: mult_mod_left)
  qed
  have b: "unat (drop_bit 8 w) = unat w div 256"
  proof -
    have "unat (drop_bit 8 w) = drop_bit 8 (unat w)" by (rule unat_drop_bit_eq)
    then show ?thesis by (simp add: drop_bit_eq_div)
  qed
  have c: "unat w mod 256 < 256" by simp
  have d: "unat w div 256 < 256" using w by simp
  have "(unat w mod 256) * 256 + unat w div 256 < 65536" using c d by linarith
  then show ?thesis
    by (simp add: htons_add unat_word_ariths(1) a b)
qed

lemma unat_odd_byte: "unat (htons (push_bit 8 (ucast (a::byte)))) = unat a"
proof -
  have "unat (push_bit 8 (ucast a :: u16)) = unat a * 256"
    using unat_byte_less[of a]
    by (simp add: push_bit_eq_mult unat_word_ariths(2) unat_ucast_8_16)
  then show ?thesis by (simp add: unat_htons)
qed

lemma unat_add32: "unat ((s::u32) + ucast (w::u16)) = (unat s + unat w) mod 4294967296"
  by (simp add: unat_word_ariths(1) unat_ucast_16_32)

lemma checksum_loop_unat:
  "len \<le> length data \<Longrightarrow>
   unat (checksum_loop s data len) = (unat s + wsum (take len data)) mod 4294967296"
proof (induction s data len rule: checksum_loop.induct)
  case (1 sum0 b0 b1 data len)
  show ?case
  proof (cases "len > 1")
    case True
    then obtain m where m: "len = Suc (Suc m)" by (metis One_nat_def Suc_lessE less_imp_Suc_add)
    with 1 have "unat (checksum_loop (sum0 + ucast (load16 b0 b1)) data m) =
        (unat (sum0 + ucast (load16 b0 b1)) + wsum (take m data)) mod 4294967296"
      by simp
    then show ?thesis
      by (simp add: m unat_add32 unat_load16 mod_add_left_eq add.assoc)
  next
    case False
    then have "len = 0 \<or> len = 1" by arith
    then show ?thesis 
      using unat_u32_less[of sum0] by (auto simp: unat_add32 unat_odd_byte)
  qed
next
  case (2 sum0 b0 len)
  then have "len = 0 \<or> len = 1" by auto
  then show ?case using unat_u32_less[of sum0] by (auto simp: unat_add32 unat_odd_byte)
next
  case (3 sum0 len)
  then show ?case using unat_u32_less[of sum0] by simp
qed


lemma ucast_not_32_16: "(ucast (NOT (x::u32)) :: u16) = NOT (ucast x)"
  apply (rule bit_word_eqI)
  apply (auto simp: bit_simps dest: bit_imp_le_length)
  done

lemma unat_not_16: "unat (NOT (y::u16)) = 65535 - unat y"
proof -
  have a: "NOT y = 65535 - y" by (simp add: not_eq_complement)
  have "unat y \<le> unat (65535::u16)" using unat_u16_less[of y] by simp
  then have b: "y \<le> 65535" by (simp only: word_le_nat_alt)
  show ?thesis unfolding a using unat_sub[OF b] by simp
qed

lemma unat_and_ffff: "unat ((s::u32) AND 0xffff) = unat s mod 65536"
proof -
  have "(0xffff::u32) = mask 16" by (simp add: mask_eq_exp_minus_1)
  then have "s AND 0xffff = take_bit 16 s"
    by (simp only: take_bit_eq_mask)
  then have "unat (s AND 0xffff) = take_bit 16 (unat s)" by (simp only: unsigned_take_bit_eq)
  then show ?thesis by (simp only: take_bit_eq_mod) simp
qed

lemma unat_ucast_32_16: "unat (ucast (s::u32) :: u16) = unat s mod 65536"
  by (simp add: unsigned_ucast_eq take_bit_eq_mod)

lemma unat_drop16: "unat (drop_bit 16 (s::u32)) = unat s div 65536"
proof -
  have "unat (drop_bit 16 s) = drop_bit 16 (unat s)" by (rule unat_drop_bit_eq)
  also have "\<dots> = unat s div 65536" by (simp add: drop_bit_eq_div)
  finally show ?thesis .
qed

lemma unat_fold: "unat (checksum_fold s) = fold_nat (unat s)"
proof -
  define n where "n = unat s"
  have n: "n < 4294967296" unfolding n_def by (rule unat_u32_less)
  define w1 where "w1 = drop_bit 16 s + (s AND 0xffff)"
  have "n div 65536 + n mod 65536 < 4294967296" using n by simp
  then have u1: "unat w1 = n div 65536 + n mod 65536"
    unfolding w1_def by (simp add: unat_word_ariths(1) unat_drop16 unat_and_ffff n_def[symmetric])
  define w2 where "w2 = w1 + drop_bit 16 w1"
  have "unat w1 + unat w1 div 65536 < 4294967296" using n u1 by simp
  then have u2: "unat w2 = unat w1 + unat w1 div 65536"
    unfolding w2_def by (simp add: unat_word_ariths(1) unat_drop16)
  have "checksum_fold s = NOT (ucast w2)"
    by (simp add: checksum_fold_def Let_def w1_def w2_def ucast_not_32_16)
  then have "unat (checksum_fold s) = 65535 - unat w2 mod 65536"
    by (simp only: unat_not_16 unat_ucast_32_16)
  then show ?thesis
    unfolding u2 u1 Let_def n_def fold_nat_def .
qed

lemma fold_aux:
  assumes "(t::nat) \<le> 131070"
  shows "(65535 - (t + t div 65536) mod 65536 = 0) \<longleftrightarrow> (t \<noteq> 0 \<and> t mod 65535 = 0)"
proof -
  consider "t < 65535" | "t = 65535" | "65536 \<le> t" "t < 131070" | "t = 131070"
    using assms by linarith
  then show ?thesis
  proof cases
    case 1
    then have "t div 65536 = 0" "t mod 65536 = t" "t mod 65535 = t" by simp_all
    with 1 show ?thesis by auto
  next
    case 2
    then show ?thesis by simp
  next
    case 3
    then have d: "t div 65536 = 1" by simp
    have "t + 1 = 65536 + (t - 65535)" using 3 by simp
    then have "(t + 1) mod 65536 = (t - 65535) mod 65536" by (metis mod_add_self1)
    moreover have "t - 65535 < 65536" using 3 by simp
    ultimately have a: "(t + 1) mod 65536 = t - 65535" by simp
    have "t = 65535 + (t - 65535)" using 3 by simp
    then have "t mod 65535 = (t - 65535) mod 65535" by (metis mod_add_self1)
    moreover have "t - 65535 < 65535" using 3 by simp
    ultimately have b: "t mod 65535 = t - 65535" by simp
    show ?thesis unfolding d a b using 3 by simp
  next
    case 4
    then show ?thesis by simp
  qed
qed

lemma fold_nat_zero:
  assumes "n < 4294967296"
  shows "fold_nat n = 0 \<longleftrightarrow> n \<noteq> 0 \<and> n mod 65535 = 0"
proof -
  define q r where "q = n div 65536" and "r = n mod 65536"
  have n: "n = 65536 * q + r" and r: "r < 65536" and q: "q < 65536"
    using assms by (simp_all add: q_def r_def)
  have m: "n mod 65535 = (q + r) mod 65535"
  proof -
    have "n = 65535 * q + (q + r)" using n by simp
    then show ?thesis by (metis mod_mult_self4)
  qed
  have z: "n \<noteq> 0 \<longleftrightarrow> q + r \<noteq> 0" using n by simp
  have f: "fold_nat n = 65535 - (q + r + (q + r) div 65536) mod 65536"
    by (simp add: fold_nat_def Let_def q_def r_def)
  have "q + r \<le> 131070" using q r by simp
  from fold_aux[OF this] show ?thesis unfolding f m z .
qed

lemma checksum_fold_zero: "checksum_fold s = 0 \<longleftrightarrow> unat s \<noteq> 0 \<and> unat s mod 65535 = 0"
proof -
  have "checksum_fold s = 0 \<longleftrightarrow> unat (checksum_fold s) = 0"
    by (simp add: unat_eq_0)
  then show ?thesis using fold_nat_zero[OF unat_u32_less[of s]] by (simp add: unat_fold)
qed

lemma fold_compl_aux:
  assumes "(t::nat) \<le> 131070"
  shows "(t + (65535 - (t + t div 65536) mod 65536)) mod 65535 = 0"
proof -
  consider "t < 65536" | "65536 \<le> t"  by linarith
  then show ?thesis
  proof cases
    case 1
    then have "t div 65536 = 0" "t mod 65536 = t" by simp_all
    with 1 show ?thesis by simp
  next
    case 2
    then have d: "t div 65536 = 1" using assms by simp
    have "t + 1 = 65536 + (t - 65535)" using 2 by simp
    then have "(t + 1) mod 65536 = (t - 65535) mod 65536" by (metis mod_add_self1)
    moreover have "t - 65535 < 65536" using 2 assms by simp
    ultimately have a: "(t + 1) mod 65536 = t - 65535" by simp
    have "t + (65535 - (t - 65535)) = 65535 * 2" using 2 assms by simp
    then show ?thesis unfolding d a by simp
  qed
qed

lemma fold_nat_compl:
  assumes "n < 4294967296"
  shows "(n + fold_nat n) mod 65535 = 0"
proof -
  define q r where "q = n div 65536" and "r = n mod 65536"
  have n: "n = 65536 * q + r" and r: "r < 65536" and q: "q < 65536"
    using assms by (simp_all add: q_def r_def)
  have f: "fold_nat n = 65535 - (q + r + (q + r) div 65536) mod 65536"
    by (simp add: fold_nat_def Let_def q_def r_def)
  have "q + r \<le> 131070" using q r by simp
  from fold_compl_aux[OF this]
  have a: "(q + r + fold_nat n) mod 65535 = 0" unfolding f .
  have "n + fold_nat n = 65535 * q + (q + r + fold_nat n)" using n by simp
  then have "(n + fold_nat n) mod 65535 = (q + r + fold_nat n) mod 65535"
    by (metis mod_mult_self4)
  with a show ?thesis by simp
qed

lemma fold_nat_le: "fold_nat n \<le> 65535"
  by (simp add: fold_nat_def Let_def)



lemma checksum_loop_eq:
  assumes "len \<le> length data"
  shows "checksum_loop s data len = s + of_nat (wsum (take len data))"
proof -
  have "unat (checksum_loop s data len) = unat (s + of_nat (wsum (take len data)))"
    by (simp add: checksum_loop_unat[OF assms] unat_word_ariths(1) unat_of_nat mod_add_right_eq)
  then show ?thesis by (simp only: word_unat_eq_iff)
qed

lemma checksum_partial_eq:
  "checksum_partial s data len =
     (if length data < len then None else Some (s + of_nat (wsum (take len data))))"
  by (simp add: checksum_partial_def checksum_loop_eq)

lemma checksum_eq:
  "checksum data len =
     (if length data < len then None else Some (checksum_fold (of_nat (wsum (take len data)))))"
  by (simp add: checksum_def checksum_partial_eq)

lemma checksum_fold_of_nat_zero:
  assumes "n < 4294967296"
  shows "checksum_fold (of_nat n) = 0 \<longleftrightarrow> n \<noteq> 0 \<and> n mod 65535 = 0"
proof -
  have "unat (of_nat n :: u32) = n" using assms by (simp add: unat_of_nat)
  then show ?thesis by (simp add: checksum_fold_zero)
qed

lemma unat_checksum_fold_of_nat:
  assumes "n < 4294967296"
  shows "unat (checksum_fold (of_nat n)) = fold_nat n"
proof -
  have "unat (of_nat n :: u32) = n" using assms by (simp add: unat_of_nat)
  then show ?thesis by (simp add: unat_fold)
qed

lemma fold_verifies:
  assumes "n + 65535 < 4294967296"
  shows "checksum_fold (of_nat (n + unat (checksum_fold (of_nat n)))) = 0"
proof -
  have n: "n < 4294967296" using assms by simp
  have f: "unat (checksum_fold (of_nat n)) = fold_nat n"
    by (rule unat_checksum_fold_of_nat[OF n])
  have b: "n + fold_nat n < 4294967296" using assms fold_nat_le[of n] by linarith
  have nz: "n + fold_nat n \<noteq> 0"
  proof
    assume "n + fold_nat n = 0"
    then show False by (auto simp: fold_nat_def)
  qed
  show ?thesis unfolding f
    using checksum_fold_of_nat_zero[OF b] nz fold_nat_compl[OF n] by simp
qed

lemma wsum_append: "even (length xs) \<Longrightarrow> wsum (xs @ ys) = wsum xs + wsum ys"
  by (induction xs rule: wsum.induct) simp_all

lemma wsum_bound: "wsum xs \<le> 65535 * ((length xs + 1) div 2)"
proof (induction xs rule: wsum.induct)
  case (1 b0 b1 data)
  have "unat b0 + 256 * unat b1 \<le> 65535"
    using unat_byte_less[of b0] unat_byte_less[of b1] by linarith
  with 1 show ?case by simp
next
  case (2 b0)
  then show ?case using unat_byte_less[of b0] by simp
qed simp

lemma unat_ucast_16_8: "unat (ucast (w::u16) :: byte) = unat w mod 256"
  by (simp add: unsigned_ucast_eq take_bit_eq_mod)

lemma unat_drop8_16: "unat (drop_bit 8 (w::u16)) = unat w div 256"
proof -
  have "unat (drop_bit 8 w) = drop_bit 8 (unat w)" by (rule unat_drop_bit_eq)
  then show ?thesis by (simp add: drop_bit_eq_div)
qed

lemma wsum_store16: "wsum (store16 w) = unat w"
proof -
  have "unat w div 256 < 256" using unat_u16_less[of w] by simp
  then show ?thesis
    by (simp add: store16_def unat_ucast_16_8 unat_drop8_16)
qed

lemma length_store16 [simp]: "length (store16 w) = 2"
  by (simp add: store16_def)

lemma length_store32 [simp]: "length (store32 w) = 4"
  by (simp add: store32_def)

lemma length_ip_bytes [simp]: "length (ip_bytes h) = 20"
  by (simp add: ip_bytes_def)

lemma length_udphdr_bytes [simp]: "length (udphdr_bytes u) = 8"
  by (simp add: udphdr_bytes_def)


lemma load16_store16: "load16 (ucast w) (ucast (drop_bit 8 w)) = w"
  unfolding load16_def
  apply (rule bit_word_eqI)
  apply (auto simp: bit_simps dest: bit_imp_le_length)
  done

lemma load32_store32:
  "load32 (ucast w) (ucast (drop_bit 8 w)) (ucast (drop_bit 16 w)) (ucast (drop_bit 24 w)) = w"
  unfolding load32_def
  apply (rule bit_word_eqI)
  apply (auto simp: bit_simps dest: bit_imp_le_length)
  subgoal for n by (cases "24 \<le> n") auto
  done

lemma store16_load16: "store16 (load16 a b) = [a, b]"
  unfolding store16_def load16_def
  apply simp
  apply (rule conjI)
   apply (rule bit_word_eqI)
   apply (auto simp: bit_simps dest: bit_imp_le_length)[1]
  apply (rule bit_word_eqI)
  apply (auto simp: bit_simps dest: bit_imp_le_length)[1]
  done

lemma store32_load32: "store32 (load32 a b c d) = [a, b, c, d]"
  unfolding store32_def load32_def
  apply simp
  apply (intro conjI)
     apply (rule bit_word_eqI)
     apply (auto simp: bit_simps dest: bit_imp_le_length)[1]
    apply (rule bit_word_eqI)
    apply (auto simp: bit_simps dest: bit_imp_le_length)[1]
   apply (rule bit_word_eqI)
   apply (auto simp: bit_simps dest: bit_imp_le_length)[1]
  apply (rule bit_word_eqI)
  apply (auto simp: bit_simps dest: bit_imp_le_length)[1]
  done

lemma ntohs_htons: "ntohs (htons w) = w"
  unfolding htons_def ntohs_def
  apply (rule bit_word_eqI)
  apply (auto simp: bit_simps dest: bit_imp_le_length)
  done

lemma nibble_low: "(push_bit 4 (v::byte) OR (hl AND 0x0f)) AND 0x0f = hl AND 0x0f"
proof -
  have m: "(0x0f::byte) = mask 4" by (simp add: mask_eq_exp_minus_1)
  show ?thesis unfolding m
    apply (rule bit_word_eqI)
    apply (auto simp: bit_simps dest: bit_imp_le_length)
    done
qed

lemma nibble_high: "drop_bit 4 (push_bit 4 (v::byte) OR (hl AND 0x0f)) = v AND 0x0f"
proof -
  have m: "(0x0f::byte) = mask 4" by (simp add: mask_eq_exp_minus_1)
  show ?thesis unfolding m
    apply (rule bit_word_eqI)
    apply (auto simp: bit_simps dest: bit_imp_le_length)
    done
qed

lemma nibble_high': "drop_bit 4 (push_bit 4 (v::byte)) = v AND 0x0f"
proof -
  have m: "(0x0f::byte) = mask 4" by (simp add: mask_eq_exp_minus_1)
  show ?thesis unfolding m
    apply (rule bit_word_eqI)
    apply (auto simp: bit_simps dest: bit_imp_le_length)
    done
qed

lemma ip_of_bytes_ip_bytes:
  "ip_of_bytes (ip_bytes h @ rest) = h\<lparr>ip_hl := ip_hl h AND 0x0f, ip_v := ip_v h AND 0x0f\<rparr>"
  by (cases h) (simp add: ip_of_bytes_def ip_bytes_def store16_def store32_def load16_store16 load32_store32
      nibble_low nibble_high nibble_high')

lemma udphdr_of_bytes_udphdr_bytes:
  "udphdr_of_bytes (udphdr_bytes u @ rest) = u"
  by (simp add: udphdr_of_bytes_def udphdr_bytes_def store16_def load16_store16)


lemma ipudp_checksum_eq:
  "ipudp_checksum iph uh data L =
     (if length iph < 20 \<or> length uh < 8 \<or> length data < L mod 65536 then None
      else Some (checksum_fold (of_nat (wsum (fake_header iph uh) + wsum (take 8 uh) +
                   wsum (take (L mod 65536) data)))))"
  by (simp add: ipudp_checksum_def Let_def checksum_partial_eq ip_of_bytes_def udphdr_of_bytes_def
      store32_load32 store16_load16 fake_header_def)

lemma wsum_take_bound: "wsum (take n xs) \<le> 65535 * ((n + 1) div 2)"
proof -
  have "wsum (take n xs) \<le> 65535 * ((length (take n xs) + 1) div 2)" by (rule wsum_bound)
  also have "\<dots> \<le> 65535 * ((n + 1) div 2)"
    by (intro mult_le_mono2 div_le_mono) simp
  finally show ?thesis .
qed

lemma udp_sum_bound:
  "wsum (fake_header iph uh) + wsum (take 8 uh) + wsum (take (L mod 65536) data) + 65535 < 4294967296"
proof -
  have a: "wsum (fake_header iph uh) \<le> 65535 * 6"
    using wsum_bound[of "fake_header iph uh"] by (simp add: fake_header_def)
  have b: "wsum (take 8 uh) \<le> 65535 * 4"
    using wsum_take_bound[of 8 uh] by simp
  have "(L mod 65536 + 1) div 2 \<le> 32768" 
  proof -
    have "L mod 65536 < 65536" by simp
    then show ?thesis by linarith
  qed
  then have "65535 * ((L mod 65536 + 1) div 2) \<le> 65535 * 32768" by (rule mult_le_mono2)
  with wsum_take_bound[of "L mod 65536" data]
  have c: "wsum (take (L mod 65536) data) \<le> 65535 * 32768" by linarith
  show ?thesis using a b c by linarith
qed

lemma wsum_udphdr_bytes:
  "wsum (udphdr_bytes u) = unat (uh_sport u) + unat (uh_dport u) + unat (uh_ulen u) + unat (uh_sum u)"
  by (simp add: udphdr_bytes_def wsum_append wsum_store16)

lemma wsum_ip_bytes:
  "wsum (ip_bytes h) = wsum (ip_bytes (h\<lparr>ip_sum := 0\<rparr>)) + unat (ip_sum h)"
proof -
  have a: "ip_bytes h = ([push_bit 4 (ip_v h) OR (ip_hl h AND 0x0f), ip_tos h] @ store16 (ip_len h) @
     store16 (ip_id h) @ store16 (ip_off h) @ [ip_ttl h, ip_p h]) @ store16 (ip_sum h) @
     (store32 (ip_src h) @ store32 (ip_dst h))" for h
    by (simp add: ip_bytes_def)
  show ?thesis unfolding a
    by (simp add: wsum_append wsum_store16)
qed

lemma ip_checksum_verifies:
  assumes "ip_sum h0 = 0" and "checksum (ip_bytes h0) 20 = Some c"
  shows "checksum (ip_bytes (h0\<lparr>ip_sum := c\<rparr>) @ rest) 20 = Some 0"
proof -
  define n where "n = wsum (ip_bytes h0)"
  have c: "c = checksum_fold (of_nat n)"
    using assms(2) by (simp add: checksum_eq n_def)
  have "n \<le> 65535 * 10" using wsum_bound[of "ip_bytes h0"] by (simp add: n_def)
  then have b: "n + 65535 < 4294967296" by simp
  have "h0\<lparr>ip_sum := 0\<rparr> = h0" using assms(1) by (cases h0) simp
  then have "wsum (ip_bytes (h0\<lparr>ip_sum := c\<rparr>)) = n + unat c"
    using wsum_ip_bytes[of "h0\<lparr>ip_sum := c\<rparr>"] by (simp add: n_def)
  then show ?thesis
    using fold_verifies[OF b] by (simp add: checksum_eq c)
qed

lemma fake_header_append:
  "length iph = 20 \<Longrightarrow> length uh = 8 \<Longrightarrow>
   fake_header (iph @ r1) (uh @ r2) = fake_header iph uh"
  by (simp add: fake_header_def nth_append)

lemma fake_header_uh_sum:
  "fake_header iph (udphdr_bytes (u\<lparr>uh_sum := c\<rparr>)) = fake_header iph (udphdr_bytes u)"
  by (simp add: fake_header_def udphdr_bytes_def store16_def)

lemma udp_checksum_verifies:
  assumes "uh_sum u0 = 0" and "length iph = 20"
    and "ipudp_checksum iph (udphdr_bytes u0) data L = Some c"
  shows "ipudp_checksum (iph @ r1) (udphdr_bytes (u0\<lparr>uh_sum := c\<rparr>) @ r2) data L = Some 0"
proof -
  define n where "n = wsum (fake_header iph (udphdr_bytes u0)) + wsum (take 8 (udphdr_bytes u0)) +
      wsum (take (L mod 65536) data)"
  have len: "\<not> length data < L mod 65536" and c: "c = checksum_fold (of_nat n)"
    using assms(2,3) unfolding n_def by (auto simp: ipudp_checksum_eq split: if_splits)
  have b: "n + 65535 < 4294967296" unfolding n_def by (rule udp_sum_bound)
  have f: "fake_header (iph @ r1) (udphdr_bytes (u0\<lparr>uh_sum := c\<rparr>) @ r2) = fake_header iph (udphdr_bytes u0)"
    using assms(2) by (simp add: fake_header_append fake_header_uh_sum)
  have "wsum (take 8 (udphdr_bytes (u0\<lparr>uh_sum := c\<rparr>) @ r2)) = wsum (take 8 (udphdr_bytes u0)) + unat c"
    using assms(1) by (simp add: wsum_udphdr_bytes)
  then have "wsum (fake_header (iph @ r1) (udphdr_bytes (u0\<lparr>uh_sum := c\<rparr>) @ r2)) +
      wsum (take 8 (udphdr_bytes (u0\<lparr>uh_sum := c\<rparr>) @ r2)) + wsum (take (L mod 65536) data) = n + unat c"
    unfolding f n_def by simp
  then show ?thesis
    using fold_verifies[OF b] len assms(2) 
    by (simp only: ipudp_checksum_eq c) simp
qed


lemma check_built:
  assumes h0: "ip_sum h0 = 0" "ip_hl h0 = 5" "ip_v h0 = 4" "ip_p h0 = IPPROTO_UDP"
      "ip_len h0 = htons (of_nat (28 + L))"
    and u0: "uh_sum u0 = 0"
    and L: "L \<le> 65507" "L \<le> length pm"
    and isum: "checksum (ip_bytes h0) 20 = Some isum"
    and usum: "ipudp_checksum (ip_bytes (h0\<lparr>ip_sum := isum\<rparr>)) (udphdr_bytes u0) pm L = Some usum"
  shows "check_packet_header (ip_bytes (h0\<lparr>ip_sum := isum\<rparr>) @ udphdr_bytes (u0\<lparr>uh_sum := usum\<rparr>) @ pm) (28 + L)
         = Payload pm (28 + L)"
proof -
  define h1 where "h1 = h0\<lparr>ip_sum := isum\<rparr>"
  define u1 where "u1 = u0\<lparr>uh_sum := usum\<rparr>"
  define f where "f = ip_bytes h1 @ udphdr_bytes u1 @ pm"
  have ne: "f \<noteq> []" by (simp add: f_def ip_bytes_def)
  have iph: "ip_of_bytes f = h1"
    unfolding f_def ip_of_bytes_ip_bytes using h0 by (cases h0) (simp add: h1_def)
  have hl: "ip_hl h1 = 5" "ip_v h1 = 4" "ip_p h1 = IPPROTO_UDP"
    using h0 by (simp_all add: h1_def)
  have c1: "checksum f 20 = Some 0"
    unfolding f_def h1_def by (rule ip_checksum_verifies[OF h0(1) isum])
  have "(28 + L) mod 65536 = 28 + L" using L by simp
  then have "unat (of_nat (28 + L) :: u16) = 28 + L" by (simp only: unat_of_nat) simp
  then have len: "unat (ntohs (ip_len h1)) = 28 + L"
    using h0 by (simp add: h1_def ntohs_htons)
  have d1: "drop 20 f = udphdr_bytes u1 @ pm" by (simp add: f_def)
  have d2: "drop 8 (udphdr_bytes u1 @ pm) = pm" by simp
  have c2: "ipudp_checksum f (udphdr_bytes u1 @ pm) pm L = Some 0"
    unfolding f_def u1_def h1_def
    by (rule udp_checksum_verifies[OF u0 _ usum]) simp
  show ?thesis
    unfolding f_def[symmetric] h1_def[symmetric] u1_def[symmetric]
    by (simp add: check_packet_header_def Let_def ne iph hl c1 len d1 c2)
qed

lemma length_poke: "off + length bs \<le> length mem \<Longrightarrow> length (poke mem off bs) = length mem"
  by (simp add: poke_def)

lemma drop_poke: "off + length bs \<le> length mem \<Longrightarrow> drop off (poke mem off bs) = bs @ drop (off + length bs) mem"
  by (simp add: poke_def)

lemma build_eq:
  fixes bp :: ni_buffer and src dst :: in_addr
  defines "udp_len \<equiv> tail bp - head bp + 8"
  defines "udp0 \<equiv> \<lparr>uh_sport = htons DHCP_CLIENT_PORT, uh_dport = htons DHCP_SERVER_PORT,
                    uh_ulen = htons (of_nat udp_len), uh_sum = 0\<rparr>"
  defines "ip0 \<equiv> \<lparr>ip_hl = 5, ip_v = 4, ip_tos = IPTOS_LOWDELAY,
                   ip_len = htons (of_nat (20 + udp_len)), ip_id = 0,
                   ip_off = htons IP_DF, ip_ttl = IPDEFTTL, ip_p = IPPROTO_UDP,
                   ip_sum = 0, ip_src = src,
                   ip_dst = (if dst = 0 then INADDR_BROADCAST else dst)\<rparr>"
  assumes wf: "28 \<le> head bp" "head bp \<le> tail bp" "tail bp \<le> length (base bp)"
  shows "\<exists>isum usum.
           checksum (ip_bytes ip0) 20 = Some isum \<and>
           ipudp_checksum (ip_bytes (ip0\<lparr>ip_sum := isum\<rparr>)) (udphdr_bytes udp0)
              (ni_buffer_head bp) (ni_buffer_count bp) = Some usum \<and>
           ni_dhcp_build_send_header bp src dst =
             Some (0, bp\<lparr>head := head bp - 28,
                        base := poke (base bp) (head bp - 28)
                          (ip_bytes (ip0\<lparr>ip_sum := isum\<rparr>) @ udphdr_bytes (udp0\<lparr>uh_sum := usum\<rparr>))\<rparr>)"
proof -
  obtain isum where isum: "checksum (ip_bytes ip0) 20 = Some isum"
    by (simp add: checksum_eq)
  have "ni_buffer_count bp mod 65536 \<le> length (ni_buffer_head bp)"
  proof -
    have "ni_buffer_count bp mod 65536 \<le> ni_buffer_count bp" by simp
    also have "\<dots> \<le> length (ni_buffer_head bp)"
      using wf by (auto simp: ni_buffer_count_def ni_buffer_head_def)
    finally show ?thesis .
  qed
  then obtain usum where usum: "ipudp_checksum (ip_bytes (ip0\<lparr>ip_sum := isum\<rparr>)) (udphdr_bytes udp0)
              (ni_buffer_head bp) (ni_buffer_count bp) = Some usum"
    by (simp add: ipudp_checksum_eq)
  have p1: "ni_buffer_push_head bp 8 = Some (bp\<lparr>head := head bp - 8\<rparr>)"
    using wf by (simp add: ni_buffer_push_head_def)
  have c1: "ni_buffer_count (bp\<lparr>head := head bp - 8\<rparr>) = udp_len"
    using wf by (simp add: ni_buffer_count_def udp_len_def)
  have p2: "ni_buffer_push_head (bp\<lparr>head := head bp - 8\<rparr>) 20 = Some (bp\<lparr>head := head bp - 28\<rparr>)"
    using wf by (simp add: ni_buffer_push_head_def)
  have r: "base (bp\<lparr>head := head bp - 28\<rparr>) = base bp" "head (bp\<lparr>head := head bp - 28\<rparr>) = head bp - 28"
    by simp_all
  have "ni_dhcp_build_send_header bp src dst =
             Some (0, bp\<lparr>head := head bp - 28,
                        base := poke (base bp) (head bp - 28)
                          (ip_bytes (ip0\<lparr>ip_sum := isum\<rparr>) @ udphdr_bytes (udp0\<lparr>uh_sum := usum\<rparr>))\<rparr>)"
    unfolding ni_dhcp_build_send_header_def Let_def p1 option.case c1 p2
      udp0_def[symmetric] ip0_def[symmetric] isum usum r ..
  with isum usum show ?thesis by blast
qed

section \<open>Building and validating a frame\<close>

lemma build_frame:
  fixes bp :: ni_buffer and src dst :: in_addr
  defines "udp_len \<equiv> tail bp - head bp + 8"
  defines "udp0 \<equiv> \<lparr>uh_sport = htons DHCP_CLIENT_PORT, uh_dport = htons DHCP_SERVER_PORT,
                    uh_ulen = htons (of_nat udp_len), uh_sum = 0\<rparr>"
  defines "ip0 \<equiv> \<lparr>ip_hl = 5, ip_v = 4, ip_tos = IPTOS_LOWDELAY,
                   ip_len = htons (of_nat (20 + udp_len)), ip_id = 0,
                   ip_off = htons IP_DF, ip_ttl = IPDEFTTL, ip_p = IPPROTO_UDP,
                   ip_sum = 0, ip_src = src,
                   ip_dst = (if dst = 0 then INADDR_BROADCAST else dst)\<rparr>"
  assumes wf: "28 \<le> head bp" "head bp \<le> tail bp" "tail bp \<le> length (base bp)"
  shows "\<exists>isum usum bp'.
           checksum (ip_bytes ip0) 20 = Some isum \<and>
           ipudp_checksum (ip_bytes (ip0\<lparr>ip_sum := isum\<rparr>)) (udphdr_bytes udp0)
              (ni_buffer_head bp) (ni_buffer_count bp) = Some usum \<and>
           ni_dhcp_build_send_header bp src dst = Some (0, bp') \<and>
           ni_buffer_count bp' = ni_buffer_count bp + 28 \<and>
           ni_buffer_head bp' =
             ip_bytes (ip0\<lparr>ip_sum := isum\<rparr>) @ udphdr_bytes (udp0\<lparr>uh_sum := usum\<rparr>) @ ni_buffer_head bp"
proof -
  from build_eq[OF wf, of src dst, folded udp_len_def, folded udp0_def ip0_def]
  obtain isum usum where
    isum: "checksum (ip_bytes ip0) 20 = Some isum" and
    usum: "ipudp_checksum (ip_bytes (ip0\<lparr>ip_sum := isum\<rparr>)) (udphdr_bytes udp0)
              (ni_buffer_head bp) (ni_buffer_count bp) = Some usum" and
    b: "ni_dhcp_build_send_header bp src dst =
             Some (0, bp\<lparr>head := head bp - 28,
                        base := poke (base bp) (head bp - 28)
                          (ip_bytes (ip0\<lparr>ip_sum := isum\<rparr>) @ udphdr_bytes (udp0\<lparr>uh_sum := usum\<rparr>))\<rparr>)"
    by blast
  define bp' where "bp' = bp\<lparr>head := head bp - 28,
                        base := poke (base bp) (head bp - 28)
                          (ip_bytes (ip0\<lparr>ip_sum := isum\<rparr>) @ udphdr_bytes (udp0\<lparr>uh_sum := usum\<rparr>))\<rparr>"
  have cnt: "ni_buffer_count bp' = ni_buffer_count bp + 28"
    using wf by (auto simp: bp'_def ni_buffer_count_def)
  have hd: "ni_buffer_head bp' =
      ip_bytes (ip0\<lparr>ip_sum := isum\<rparr>) @ udphdr_bytes (udp0\<lparr>uh_sum := usum\<rparr>) @ ni_buffer_head bp"
    using wf by (simp add: bp'_def ni_buffer_head_def drop_poke)
  show ?thesis using isum usum b cnt hd unfolding bp'_def[symmetric] by blast
qed

lemma build_check_roundtrip:
  assumes wf: "28 \<le> head bp" "head bp \<le> tail bp" "tail bp \<le> length (base bp)"
    and L: "tail bp - head bp \<le> 65507"
  shows "\<exists>bp'. ni_dhcp_build_send_header bp src dst = Some (0, bp') \<and>
           ni_buffer_count bp' = ni_buffer_count bp + 28 \<and>
           drop 28 (ni_buffer_head bp') = ni_buffer_head bp \<and>
           check_packet_header (ni_buffer_head bp') (ni_buffer_count bp') =
             Payload (ni_buffer_head bp) (ni_buffer_count bp + 28)"
proof -
  define udp_len where "udp_len = tail bp - head bp + 8"
  define udp0 where "udp0 = \<lparr>uh_sport = htons DHCP_CLIENT_PORT, uh_dport = htons DHCP_SERVER_PORT,
                    uh_ulen = htons (of_nat udp_len), uh_sum = 0\<rparr>"
  define ip0 where "ip0 = \<lparr>ip_hl = 5, ip_v = 4, ip_tos = IPTOS_LOWDELAY,
                   ip_len = htons (of_nat (20 + udp_len)), ip_id = 0,
                   ip_off = htons IP_DF, ip_ttl = IPDEFTTL, ip_p = IPPROTO_UDP,
                   ip_sum = 0, ip_src = src,
                   ip_dst = (if dst = 0 then INADDR_BROADCAST else dst)\<rparr>"
  from build_frame[OF wf, of src dst, folded udp_len_def, folded udp0_def ip0_def]
  obtain isum usum bp' where
    isum: "checksum (ip_bytes ip0) 20 = Some isum" and
    usum: "ipudp_checksum (ip_bytes (ip0\<lparr>ip_sum := isum\<rparr>)) (udphdr_bytes udp0)
              (ni_buffer_head bp) (ni_buffer_count bp) = Some usum" and
    b: "ni_dhcp_build_send_header bp src dst = Some (0, bp')" and
    cnt: "ni_buffer_count bp' = ni_buffer_count bp + 28" and
    hd: "ni_buffer_head bp' =
      ip_bytes (ip0\<lparr>ip_sum := isum\<rparr>) @ udphdr_bytes (udp0\<lparr>uh_sum := usum\<rparr>) @ ni_buffer_head bp"
    by blast
  have cb: "ni_buffer_count bp = tail bp - head bp"
    using wf by (simp add: ni_buffer_count_def)
  have len: "ip_len ip0 = htons (of_nat (28 + ni_buffer_count bp))"
    by (simp add: ip0_def udp_len_def cb add.commute add.left_commute)
  have "check_packet_header (ip_bytes (ip0\<lparr>ip_sum := isum\<rparr>) @ udphdr_bytes (udp0\<lparr>uh_sum := usum\<rparr>) @ ni_buffer_head bp)
          (28 + ni_buffer_count bp) = Payload (ni_buffer_head bp) (28 + ni_buffer_count bp)"
  proof (rule check_built[OF _ _ _ _ len _ _ _ isum usum])
    show "ni_buffer_count bp \<le> 65507" using L by (simp add: cb)
    show "ni_buffer_count bp \<le> length (ni_buffer_head bp)"
      using wf by (simp add: cb ni_buffer_head_def)
  qed (simp_all add: ip0_def udp0_def)
  then have "check_packet_header (ni_buffer_head bp') (ni_buffer_count bp') =
             Payload (ni_buffer_head bp) (ni_buffer_count bp + 28)"
    by (simp add: hd cnt add.commute)
  moreover have "drop 28 (ni_buffer_head bp') = ni_buffer_head bp"
    by (simp add: hd)
  ultimately show ?thesis using b cnt by blast
qed

lemma check_packet_header_no_bad_read:
  assumes "data \<noteq> []" and "bytes \<le> length data"
  shows "check_packet_header data bytes \<noteq> Bad_read"
proof -
  define ihl where "ihl = unat (ip_hl (ip_of_bytes data)) * 4"
  have a: "20 \<le> ihl \<Longrightarrow> ihl \<le> bytes \<Longrightarrow> checksum data ihl \<noteq> None"
    using assms by (simp add: checksum_eq)
  have b: "20 \<le> ihl \<Longrightarrow> ihl \<le> bytes \<Longrightarrow> 8 \<le> bytes - ihl \<Longrightarrow>
      ipudp_checksum data (drop ihl data) (drop 8 (drop ihl data)) (bytes - ihl - 8) \<noteq> None"
  proof -
    assume h: "20 \<le> ihl" "ihl \<le> bytes" "8 \<le> bytes - ihl"
    have "(bytes - ihl - 8) mod 65536 \<le> bytes - ihl - 8" by simp
    also have "\<dots> \<le> length data - (ihl + 8)" using assms h by simp
    finally have "(bytes - ihl - 8) mod 65536 \<le> length (drop 8 (drop ihl data))"
      by (simp add: add.commute)
    moreover have "20 \<le> length data" "8 \<le> length (drop ihl data)" using assms h by simp_all
    ultimately show ?thesis by (simp only: ipudp_checksum_eq not_less[symmetric]) simp
  qed
  show ?thesis
    using assms a b unfolding check_packet_header_def Let_def ihl_def[symmetric]
    by (auto split: option.splits simp: not_less)
qed

lemmas codec_eval =
  check_packet_header_def Let_def checksum_def checksum_partial_def ipudp_checksum_def
  ip_of_bytes_def udphdr_of_bytes_def ip_bytes_def udphdr_bytes_def
  load16_def load32_def store16_def store32_def htons_def ntohs_def
  checksum_fold_def IPPROTO_UDP_def IPTOS_LOWDELAY_def IPDEFTTL_def IP_DF_def INADDR_BROADCAST_def
  DHCP_CLIENT_PORT_def DHCP_SERVER_PORT_def
  ni_dhcp_build_send_header_def ni_buffer_head_def ni_buffer_count_def ni_buffer_push_head_def poke_def

section \<open>Single bit flips\<close>

lemma nat_flip_bit:
  fixes m :: nat
  shows "(bit m b \<longrightarrow> flip_bit b m + 2 ^ b = m) \<and> (\<not> bit m b \<longrightarrow> flip_bit b m = m + 2 ^ b)"
proof (cases "bit m b")
  case True
  have "set_bit b (unset_bit b m) = m"
    by (rule bit_eqI) (use True in \<open>auto simp: bit_simps\<close>)
  moreover have "set_bit b (unset_bit b m) = unset_bit b m + 2 ^ b"
    by (simp add: set_bit_eq bit_simps)
  ultimately show ?thesis using True by (simp add: flip_bit_eq_if)
next
  case False
  then show ?thesis by (simp add: flip_bit_eq_if set_bit_eq)
qed

lemma unat_flip_byte:
  fixes x :: byte
  assumes "b < 8"
  shows "unat (x XOR push_bit b 1) = unat x + 2 ^ b \<or> unat (x XOR push_bit b 1) + 2 ^ b = unat x"
proof -
  have "(2::nat) ^ b < 2 ^ 8" using assms by (intro power_strict_increasing) simp_all
  then have "unat (of_nat (2 ^ b) :: byte) = 2 ^ b"
    by (simp only: unat_of_nat) simp
  then have "unat (push_bit b 1 :: byte) = 2 ^ b"
    by (simp add: push_bit_eq_mult)
  then have "unat (x XOR push_bit b 1) = flip_bit b (unat x)"
    by (simp add: unsigned_xor_eq flip_bit_eq_xor)
  then show ?thesis using nat_flip_bit[of "unat x" b] by auto
qed


lemma flip_byte_int:
  fixes x :: byte
  assumes "b < 8"
  shows "int (unat (x XOR push_bit b 1)) - int (unat x) = 2 ^ b \<or>
         int (unat (x XOR push_bit b 1)) - int (unat x) = - (2 ^ b)"
proof -
  from unat_flip_byte[OF assms, of x]
  show ?thesis
  proof
    assume "unat (x XOR push_bit b 1) = unat x + 2 ^ b"
    then have "int (unat (x XOR push_bit b 1)) = int (unat x) + 2 ^ b" by simp
    then show ?thesis by simp
  next
    assume "unat (x XOR push_bit b 1) + 2 ^ b = unat x"
    then have "int (unat (x XOR push_bit b 1)) + 2 ^ b = int (unat x)"
      by (metis of_nat_add of_nat_numeral of_nat_power)
    then show ?thesis by simp
  qed
qed

lemma wsum_update_int:
  "i < length xs \<Longrightarrow>
   int (wsum (xs[i := y])) =
     int (wsum xs) + (if even i then 1 else 256) * (int (unat y) - int (unat (xs ! i)))"
proof (induction xs arbitrary: i rule: wsum.induct)
  case (1 b0 b1 data)
  show ?case
  proof (cases i)
    case 0
    then show ?thesis by simp
  next
    case (Suc wt)
    show ?thesis
    proof (cases wt)
      case 0
      with Suc show ?thesis by simp
    next
      case (Suc m)
      with \<open>i = Suc wt\<close> 1 have "m < length data" by simp
      from 1(1)[OF this] \<open>i = Suc wt\<close> Suc show ?thesis by simp
    qed
  qed
next
  case (2 b0)
  then show ?case by simp
next
  case 3
  then show ?case by simp
qed

lemma pow2_not_dvd:
  assumes "b < 8" and "wt = 1 \<or> wt = 2 \<or> wt = 256 \<or> wt = 512"
  shows "\<not> (65535::int) dvd wt * 2 ^ b"
proof -
  have "b = 0 \<or> b = 1 \<or> b = 2 \<or> b = 3 \<or> b = 4 \<or> b = 5 \<or> b = 6 \<or> b = 7"
    using assms(1) by linarith
  with assms(2) show ?thesis by (elim disjE) simp_all
qed

lemma flipped_sum_not_dvd:
  fixes T T' :: nat
  assumes "65535 dvd T" and "b < 8" and "wt = 1 \<or> wt = 2 \<or> wt = 256 \<or> wt = 512"
    and "e = 2 ^ b \<or> e = - (2 ^ b)"
    and "int T' = int T + wt * e"
  shows "\<not> 65535 dvd T'"
proof
  assume "65535 dvd T'"
  then have "(65535::int) dvd int T'" by presburger
  moreover have "(65535::int) dvd int T" using assms(1) by presburger
  ultimately have "(65535::int) dvd wt * e" using assms(5) by (simp add: dvd_add_right_iff)
  then have "(65535::int) dvd wt * 2 ^ b" using assms(4) by auto
  with pow2_not_dvd[OF assms(2,3)] show False by simp
qed

lemma flip_high_nibble:
  fixes x :: byte
  assumes "4 \<le> b" and "b < 8"
  shows "(x XOR push_bit b 1) AND 0x0f = x AND 0x0f"
    and "drop_bit 4 (x XOR push_bit b 1) \<noteq> drop_bit 4 x"
proof -
  have m: "(0x0f::byte) = mask 4" by (simp add: mask_eq_exp_minus_1)
  show "(x XOR push_bit b 1) AND 0x0f = x AND 0x0f"
    unfolding m using assms
    by (intro bit_word_eqI) (auto simp: bit_simps)
  show "drop_bit 4 (x XOR push_bit b 1) \<noteq> drop_bit 4 x"
  proof
    assume "drop_bit 4 (x XOR push_bit b 1) = drop_bit 4 x"
    then have "bit (drop_bit 4 (x XOR push_bit b 1)) (b - 4) = bit (drop_bit 4 x) (b - 4)"
      by simp
    then show False using assms by (simp add: bit_simps)
  qed
qed


lemma check_payloadD:
  assumes "check_packet_header data bytes = Payload p n"
  shows "data \<noteq> []" and "ip_v (ip_of_bytes data) = 4"
    and "20 \<le> unat (ip_hl (ip_of_bytes data)) * 4"
    and "unat (ip_hl (ip_of_bytes data)) * 4 \<le> bytes"
    and "checksum data (unat (ip_hl (ip_of_bytes data)) * 4) = Some 0"
    and "unat (ntohs (ip_len (ip_of_bytes data))) \<le> bytes"
    and "ip_p (ip_of_bytes data) = IPPROTO_UDP"
    and "8 \<le> bytes - unat (ip_hl (ip_of_bytes data)) * 4"
    and "ipudp_checksum data (drop (unat (ip_hl (ip_of_bytes data)) * 4) data)
           (drop 8 (drop (unat (ip_hl (ip_of_bytes data)) * 4) data))
           (bytes - unat (ip_hl (ip_of_bytes data)) * 4 - 8) = Some 0"
    and "p = drop 8 (drop (unat (ip_hl (ip_of_bytes data)) * 4) data)"
    and "n = unat (ntohs (ip_len (ip_of_bytes data)))"
  using assms unfolding check_packet_header_def Let_def
  by (auto split: if_splits option.splits simp: not_less)

lemma check_bad_version:
  "data \<noteq> [] \<Longrightarrow> ip_v (ip_of_bytes data) \<noteq> 4 \<Longrightarrow>
   check_packet_header data bytes = Null ''bad IP header, ignoring''"
  by (simp add: check_packet_header_def Let_def)

lemma check_bad_ip_checksum:
  "data \<noteq> [] \<Longrightarrow> ip_v (ip_of_bytes data) = 4 \<Longrightarrow> 20 \<le> unat (ip_hl (ip_of_bytes data)) * 4 \<Longrightarrow>
   unat (ip_hl (ip_of_bytes data)) * 4 \<le> bytes \<Longrightarrow>
   checksum data (unat (ip_hl (ip_of_bytes data)) * 4) = Some c \<Longrightarrow> c \<noteq> 0 \<Longrightarrow>
   check_packet_header data bytes = Null ''bad IP header checksum, ignoring''"
  by (simp add: check_packet_header_def Let_def)

lemma check_bad_udp_checksum:
  "data \<noteq> [] \<Longrightarrow> ip_v (ip_of_bytes data) = 4 \<Longrightarrow> 20 \<le> unat (ip_hl (ip_of_bytes data)) * 4 \<Longrightarrow>
   unat (ip_hl (ip_of_bytes data)) * 4 \<le> bytes \<Longrightarrow>
   checksum data (unat (ip_hl (ip_of_bytes data)) * 4) = Some 0 \<Longrightarrow>
   unat (ntohs (ip_len (ip_of_bytes data))) \<le> bytes \<Longrightarrow>
   ip_p (ip_of_bytes data) = IPPROTO_UDP \<Longrightarrow>
   8 \<le> bytes - unat (ip_hl (ip_of_bytes data)) * 4 \<Longrightarrow>
   ipudp_checksum data (drop (unat (ip_hl (ip_of_bytes data)) * 4) data)
           (drop 8 (drop (unat (ip_hl (ip_of_bytes data)) * 4) data))
           (bytes - unat (ip_hl (ip_of_bytes data)) * 4 - 8) = Some u \<Longrightarrow> u \<noteq> 0 \<Longrightarrow>
   check_packet_header data bytes = Null ''bad UDP checksum, ignoring''"
  by (simp add: check_packet_header_def Let_def)

lemma ip_of_bytes_update:
  "20 \<le> i \<Longrightarrow> ip_of_bytes (data[i := y]) = ip_of_bytes data"
  by (simp add: ip_of_bytes_def)

lemma ip_nibbles_update:
  "0 < i \<Longrightarrow> ip_hl (ip_of_bytes (data[i := y])) = ip_hl (ip_of_bytes data) \<and>
     ip_v (ip_of_bytes (data[i := y])) = ip_v (ip_of_bytes data)"
  by (simp add: ip_of_bytes_def)

lemma fake_header_update_iph:
  "20 \<le> i \<Longrightarrow> fake_header (data[i := y]) uh = fake_header data uh"
  by (simp add: fake_header_def)

lemma fake_header_update_uh:
  "j < 8 \<Longrightarrow> 8 \<le> length uh \<Longrightarrow>
   int (wsum (fake_header iph (uh[j := y]))) =
     int (wsum (fake_header iph uh)) +
       (if j = 4 then 1 else if j = 5 then 256 else 0) * (int (unat y) - int (unat (uh ! j)))"
  by (simp add: fake_header_def nth_list_update)


lemma wsum_take_lt: "n \<le> 65535 \<Longrightarrow> wsum (take n xs) < 4294967296"
proof -
  assume "n \<le> 65535"
  then have "(n + 1) div 2 \<le> 32768" by linarith
  then have "65535 * ((n + 1) div 2) \<le> 65535 * 32768" by (rule mult_le_mono2)
  with wsum_take_bound[of n xs] show ?thesis by linarith
qed

lemma checksum_zeroD:
  assumes "checksum data len = Some 0" and "len \<le> 65535"
  shows "len \<le> length data" and "65535 dvd wsum (take len data)"
proof -
  show l: "len \<le> length data" using assms(1) by (auto simp: checksum_eq split: if_splits)
  then have "checksum_fold (of_nat (wsum (take len data))) = 0"
    using assms(1) by (simp add: checksum_eq)
  then show "65535 dvd wsum (take len data)"
    using checksum_fold_of_nat_zero[OF wsum_take_lt[OF assms(2)], of data] by (simp add: dvd_eq_mod_eq_0)
qed

lemma checksum_nonzeroI:
  assumes "len \<le> length data" and "len \<le> 65535" and "\<not> 65535 dvd wsum (take len data)"
  shows "\<exists>c. checksum data len = Some c \<and> c \<noteq> 0"
  using assms checksum_fold_of_nat_zero[OF wsum_take_lt[OF assms(2)], of data]
  by (simp add: checksum_eq dvd_eq_mod_eq_0)

lemma udp_sum_lt: "udp_sum iph uh data L < 4294967296"
  using udp_sum_bound[of iph uh L data] by (simp add: udp_sum_def)

lemma ipudp_zeroD:
  assumes "ipudp_checksum iph uh data L = Some 0"
  shows "20 \<le> length iph" "8 \<le> length uh" "L mod 65536 \<le> length data"
    "65535 dvd udp_sum iph uh data L"
proof -
  show g: "20 \<le> length iph" "8 \<le> length uh" "L mod 65536 \<le> length data"
    using assms by (auto simp: ipudp_checksum_eq split: if_splits)
  then have "checksum_fold (of_nat (udp_sum iph uh data L)) = 0"
    using assms by (simp add: ipudp_checksum_eq udp_sum_def)
  then show "65535 dvd udp_sum iph uh data L"
    using checksum_fold_of_nat_zero[OF udp_sum_lt, of iph uh data L] by (simp add: dvd_eq_mod_eq_0)
qed

lemma ipudp_nonzeroI:
  assumes "20 \<le> length iph" "8 \<le> length uh" "L mod 65536 \<le> length data"
    and "\<not> 65535 dvd udp_sum iph uh data L"
  shows "\<exists>u. ipudp_checksum iph uh data L = Some u \<and> u \<noteq> 0"
  using assms checksum_fold_of_nat_zero[OF udp_sum_lt, of iph uh data L]
  by (simp add: ipudp_checksum_eq udp_sum_def dvd_eq_mod_eq_0 not_less[symmetric])


lemma flip_ip_header_dropped:
  assumes acc: "check_packet_header data bytes = Payload p n"
    and i: "i < unat (ip_hl (ip_of_bytes data)) * 4" and b: "b < 8"
    and not_ihl: "\<not> (i = 0 \<and> b < 4)"
  shows "\<exists>msg. check_packet_header (data[i := data ! i XOR push_bit b 1]) bytes = Null msg"
proof -
  define ihl where "ihl = unat (ip_hl (ip_of_bytes data)) * 4"
  define y where "y = data ! i XOR push_bit b 1"
  note f = check_payloadD[OF acc, folded ihl_def]
  have hl15: "unat (ip_hl (ip_of_bytes data)) \<le> 15"
  proof -
    have "ip_hl (ip_of_bytes data) \<le> 0x0f" by (simp add: ip_of_bytes_def word_and_le1)
    then show ?thesis by (simp add: word_le_nat_alt)
  qed
  then have ihl60: "ihl \<le> 65535" by (simp add: ihl_def)
  from checksum_zeroD[OF f(5) ihl60] have len: "ihl \<le> length data"
    and dv: "65535 dvd wsum (take ihl data)" by simp_all
  have ne: "data[i := y] \<noteq> []" using f(1) by simp
  show ?thesis
  proof (cases "i = 0")
    case True
    with not_ihl b have b4: "4 \<le> b" by simp
    have d0: "data[0 := y] ! 0 = y" using f(1) by (cases data) simp_all
    have "ip_v (ip_of_bytes (data[i := y])) = drop_bit 4 y"
      using True by (simp add: ip_of_bytes_def d0)
    moreover have "ip_v (ip_of_bytes data) = drop_bit 4 (data ! 0)"
      by (simp add: ip_of_bytes_def)
    ultimately have "ip_v (ip_of_bytes (data[i := y])) \<noteq> 4"
      using flip_high_nibble(2)[OF b4 b, of "data ! 0"] f(2) True by (simp add: y_def)
    from check_bad_version[OF ne this] show ?thesis unfolding y_def by blast
  next
    case False
    then have pos: "0 < i" by simp
    have nib: "ip_hl (ip_of_bytes (data[i := y])) = ip_hl (ip_of_bytes data)"
      "ip_v (ip_of_bytes (data[i := y])) = ip_v (ip_of_bytes data)"
      using ip_nibbles_update[OF pos, of data y] by simp_all
    have i': "i < length (take ihl data)" using i len by (simp add: ihl_def)
    have tk: "take ihl (data[i := y]) = (take ihl data)[i := y]"
      using i by (simp add: take_update_swap ihl_def)
    have nth: "take ihl data ! i = data ! i" using i by (simp add: ihl_def)
    from flip_byte_int[OF b, of "data ! i"] obtain e where
      e: "e = 2 ^ b \<or> e = - (2 ^ b)" and ey: "int (unat y) - int (unat (data ! i)) = e"
      unfolding y_def by blast
    have "int (wsum (take ihl (data[i := y]))) =
        int (wsum (take ihl data)) + (if even i then 1 else 256) * e"
      unfolding tk wsum_update_int[OF i'] nth ey ..
    then have "\<not> 65535 dvd wsum (take ihl (data[i := y]))"
      by (intro flipped_sum_not_dvd[OF dv b _ e, of "if even i then 1 else 256"]) auto
    from checksum_nonzeroI[OF _ ihl60 this] len obtain c where
      c: "checksum (data[i := y]) ihl = Some c" "c \<noteq> 0" by auto
    have "check_packet_header (data[i := y]) bytes = Null ''bad IP header checksum, ignoring''"
      by (rule check_bad_ip_checksum[OF ne]) (use f c in \<open>simp_all add: nib ihl_def\<close>)
    then show ?thesis unfolding y_def by blast
  qed
qed


lemma flip_udp_header_dropped:
  assumes acc: "check_packet_header data bytes = Payload p n"
    and i: "unat (ip_hl (ip_of_bytes data)) * 4 \<le> i" "i < unat (ip_hl (ip_of_bytes data)) * 4 + 8"
    and b: "b < 8"
  shows "check_packet_header (data[i := data ! i XOR push_bit b 1]) bytes =
           Null ''bad UDP checksum, ignoring''"
proof -
  define ihl where "ihl = unat (ip_hl (ip_of_bytes data)) * 4"
  define y where "y = data ! i XOR push_bit b 1"
  define j where "j = i - ihl"
  define uh where "uh = drop ihl data"
  define rest where "rest = drop 8 (drop ihl data)"
  define L where "L = bytes - ihl - 8"
  note f = check_payloadD[OF acc, folded ihl_def, folded uh_def rest_def L_def]
  have i20: "20 \<le> i" using f(3) i(1) by (simp add: ihl_def)
  have j8: "j < 8" and ij: "i = ihl + j" using i by (simp_all add: j_def ihl_def)
  from ipudp_zeroD[OF f(9)] have g: "20 \<le> length data" "8 \<le> length uh" "L mod 65536 \<le> length rest"
    and dv: "65535 dvd udp_sum data uh rest L" by simp_all
  have ne: "data[i := y] \<noteq> []" using f(1) by simp
  have iph: "ip_of_bytes (data[i := y]) = ip_of_bytes data"
    by (rule ip_of_bytes_update[OF i20])
  have tk: "take ihl (data[i := y]) = take ihl data" using i(1) by (simp add: ihl_def)
  have c1: "checksum (data[i := y]) ihl = Some 0"
    using f(5) by (simp add: checksum_eq tk split: if_splits)
  have uh': "drop ihl (data[i := y]) = uh[j := y]"
    using i(1) by (simp add: drop_update_swap uh_def j_def ihl_def)
  have rest': "drop 8 (uh[j := y]) = rest"
    using j8 by (simp add: rest_def uh_def)
  have nth: "uh ! j = data ! i" using g(2) j8 by (simp add: uh_def ij)
  from flip_byte_int[OF b, of "data ! i"] obtain e where
    e: "e = 2 ^ b \<or> e = - (2 ^ b)" and ey: "int (unat y) - int (unat (uh ! j)) = e"
    unfolding y_def nth by blast
  have j': "j < length (take 8 uh)" using j8 g(2) by simp
  have u1: "int (wsum (take 8 (uh[j := y]))) =
      int (wsum (take 8 uh)) + (if even j then 1 else 256) * e"
  proof -
    have nt: "take 8 uh ! j = uh ! j" using j8 by simp
    have tu: "take 8 (uh[j := y]) = (take 8 uh)[j := y]" by (simp add: take_update_swap)
    show ?thesis unfolding tu wsum_update_int[OF j'] nt ey ..
  qed
  have u2: "int (wsum (fake_header (data[i := y]) (uh[j := y]))) =
      int (wsum (fake_header data uh)) + (if j = 4 then 1 else if j = 5 then 256 else 0) * e"
    unfolding fake_header_update_iph[OF i20] fake_header_update_uh[OF j8 g(2)] ey ..
  define wt :: int where "wt = (if even j then 1 else 256) + (if j = 4 then 1 else if j = 5 then 256 else 0)"
  have wt: "wt = 1 \<or> wt = 2 \<or> wt = 256 \<or> wt = 512" by (auto simp: wt_def)
  have "int (udp_sum (data[i := y]) (uh[j := y]) rest L) = int (udp_sum data uh rest L) + wt * e"
    unfolding udp_sum_def of_nat_add u1 u2 wt_def by (simp add: algebra_simps)
  from flipped_sum_not_dvd[OF dv b wt e this]
  have "\<not> 65535 dvd udp_sum (data[i := y]) (uh[j := y]) rest L" .
  from ipudp_nonzeroI[OF _ _ g(3) this] g obtain u where
    u: "ipudp_checksum (data[i := y]) (uh[j := y]) rest L = Some u" "u \<noteq> 0" by auto
  have "check_packet_header (data[i := y]) bytes = Null ''bad UDP checksum, ignoring''"
    by (rule check_bad_udp_checksum[OF ne, where u = u])
       (use f c1 u in \<open>simp_all add: iph ihl_def[symmetric] uh' rest' L_def\<close>)
  then show ?thesis unfolding y_def .
qed

section \<open>The source's checksums against the specification's\<close>

text \<open>
  Multiplying a sum of 16-bit words by 256 swaps the bytes of each word modulo
  \<open>2^16 - 1\<close>, so the sum of the words as the source loads them is a multiple of
  \<open>2^16 - 1\<close> exactly when the sum of the words in network byte order is; hence a
  checksum verifies for the source's functions exactly when it verifies for the
  specification's.
\<close>

lemma spec_words_bound: "spec_words xs \<le> 65535 * ((length xs + 1) div 2)"
proof (induction xs rule: spec_words.induct)
  case (1 b0 b1 data)
  have "256 * unat b0 + unat b1 \<le> 65535"
    using unat_byte_less[of b0] unat_byte_less[of b1] by linarith
  with 1 show ?case by simp
next
  case (2 b0)
  then show ?case using unat_byte_less[of b0] by simp
qed simp

lemma spec_words_append: "even (length xs) \<Longrightarrow> spec_words (xs @ ys) = spec_words xs + spec_words ys"
  by (induction xs rule: spec_words.induct) simp_all

lemma swap_words: "\<exists>q. 256 * wsum xs = spec_words xs + 65535 * q"
proof (induction xs rule: wsum.induct)
  case (1 b0 b1 data)
  then obtain q where q: "256 * wsum data = spec_words data + 65535 * q" by blast
  have "256 * wsum (b0 # b1 # data) = spec_words (b0 # b1 # data) + 65535 * (q + unat b1)"
    using q by simp
  then show ?case by blast
next
  case (2 b0)
  have "256 * wsum [b0] = spec_words [b0] + 65535 * 0" by simp
  then show ?case by blast
next
  case 3
  have "256 * wsum [] = spec_words [] + 65535 * 0" by simp
  then show ?case by blast
qed

lemma swap_words': "\<exists>q. 256 * spec_words xs = wsum xs + 65535 * q"
proof (induction xs rule: wsum.induct)
  case (1 b0 b1 data)
  then obtain q where q: "256 * spec_words data = wsum data + 65535 * q" by blast
  have "256 * spec_words (b0 # b1 # data) = wsum (b0 # b1 # data) + 65535 * (q + unat b0)"
    using q by simp
  then show ?case by blast
next
  case (2 b0)
  have "256 * spec_words [b0] = wsum [b0] + 65535 * unat b0" by simp
  then show ?case by blast
next
  case 3
  have "256 * spec_words [] = wsum [] + 65535 * 0" by simp
  then show ?case by blast
qed

lemma swap_sum_dvd:
  assumes "\<exists>q. 256 * a = a' + 65535 * (q::nat)" and "\<exists>q. 256 * b = b' + 65535 * (q::nat)"
    and "\<exists>q. 256 * c = c' + 65535 * (q::nat)" and "65535 dvd a + b + c"
  shows "65535 dvd a' + b' + c'"
proof -
  from assms obtain q1 q2 q3 where
    q: "256 * a = a' + 65535 * q1" "256 * b = b' + 65535 * q2" "256 * c = c' + 65535 * q3"
    by blast
  have "256 * (a + b + c) = (a' + b' + c') + 65535 * (q1 + q2 + q3)"
    using q by (simp add: algebra_simps)
  moreover have "65535 dvd 256 * (a + b + c)" by (rule dvd_mult[OF assms(4)])
  ultimately have "65535 dvd (a' + b' + c') + 65535 * (q1 + q2 + q3)" by simp
  then show ?thesis by (simp add: dvd_add_left_iff)
qed

lemma swap_zero:
  assumes "\<exists>q. 256 * a = a' + 65535 * (q::nat)" and "a = 0"
  shows "a' = 0"
  using assms by auto

lemma spec_words_zero: "spec_words xs = 0 \<longleftrightarrow> wsum xs = 0"
  by (induction xs rule: wsum.induct) auto

lemma spec_fold_zero:
  assumes "n < 4294967296"
  shows "spec_fold n = 0 \<longleftrightarrow> n \<noteq> 0 \<and> n mod 65535 = 0"
proof -
  define q r where "q = n div 65536" and "r = n mod 65536"
  have n: "n = 65536 * q + r" and r: "r < 65536" and q: "q < 65536"
    using assms by (simp_all add: q_def r_def)
  have m: "n mod 65535 = (q + r) mod 65535"
  proof -
    have "n = 65535 * q + (q + r)" using n by simp
    then show ?thesis by (metis mod_mult_self4)
  qed
  have z: "n \<noteq> 0 \<longleftrightarrow> q + r \<noteq> 0" using n by simp
  define t where "t = q + r"
  have t: "t \<le> 131070" using q r by (simp add: t_def)
  have f: "spec_fold n = 65535 - (t div 65536 + t mod 65536) mod 65536"
    by (simp add: spec_fold_def Let_def q_def r_def t_def)
  have "(65535 - (t div 65536 + t mod 65536) mod 65536 = 0) \<longleftrightarrow> (t \<noteq> 0 \<and> t mod 65535 = 0)"
  proof (cases "t < 65536")
    case True
    then consider "t < 65535" | "t = 65535" by linarith
    then show ?thesis
    proof cases
      case 1
      then show ?thesis by auto
    next
      case 2
      then show ?thesis by simp
    qed
  next
    case False
    then have d: "t div 65536 = 1" using t by simp
    have e: "t mod 65536 = t - 65536" using False t by (simp add: mod_if)
    have g: "t mod 65535 = (t - 65535) mod 65535" using False by (simp add: le_mod_geq)
    have h: "t - 65535 \<le> 65535" using t by simp
    show ?thesis using False t unfolding d e g
      by (cases "t = 131070") (auto simp: mod_if)
  qed
  then show ?thesis unfolding f m z t_def by simp
qed

lemma spec_partial_small:
  "acc + spec_words xs < 4294967296 \<Longrightarrow> spec_partial acc xs = acc + spec_words xs"
  by (simp add: spec_partial_def)

lemma dvd_words_iff: "65535 dvd spec_words xs \<longleftrightarrow> 65535 dvd wsum xs"
proof
  assume a: "65535 dvd spec_words xs"
  from swap_sum_dvd[OF swap_words'[of xs] swap_words'[of "[]"] swap_words'[of "[]"]] a
  show "65535 dvd wsum xs" by simp
next
  assume a: "65535 dvd wsum xs"
  from swap_sum_dvd[OF swap_words[of xs] swap_words[of "[]"] swap_words[of "[]"]] a
  show "65535 dvd spec_words xs" by simp
qed

lemma spec_words_take_lt:
  assumes "len \<le> 65535" shows "spec_words (take len data) < 4294967296"
proof -
  have "spec_words (take len data) \<le> 65535 * ((length (take len data) + 1) div 2)"
    by (rule spec_words_bound)
  also have "\<dots> \<le> 65535 * ((len + 1) div 2)"
    by (intro mult_le_mono2 div_le_mono) simp
  also have "\<dots> \<le> 65535 * 32768" using assms by (intro mult_le_mono2) simp
  finally show ?thesis by simp
qed

lemma checksum_verifies_spec:
  assumes "len \<le> length data" and "len \<le> 65535"
  shows "checksum data len = Some 0 \<longleftrightarrow> spec_ip_checksum (take len data) = 0"
proof -
  have a: "checksum data len = Some 0 \<longleftrightarrow> wsum (take len data) \<noteq> 0 \<and> 65535 dvd wsum (take len data)"
    using assms(1) checksum_fold_of_nat_zero[OF wsum_take_lt[OF assms(2)], of data]
    by (simp add: checksum_eq dvd_eq_mod_eq_0)
  have b: "spec_ip_checksum (take len data) = 0 \<longleftrightarrow>
            spec_words (take len data) \<noteq> 0 \<and> 65535 dvd spec_words (take len data)"
    using spec_fold_zero[OF spec_words_take_lt[OF assms(2)], of data]
      spec_words_take_lt[OF assms(2), of data]
    by (simp add: spec_ip_checksum_def spec_partial_def dvd_eq_mod_eq_0)
  show ?thesis unfolding a b by (simp add: spec_words_zero dvd_words_iff)
qed

lemma take4_drop: "n + 4 \<le> length xs \<Longrightarrow> take 4 (drop n xs) = [xs ! n, xs ! (n + 1), xs ! (n + 2), xs ! (n + 3)]"
  by (rule nth_equalityI) (auto simp: less_Suc_eq numeral_eq_Suc)

lemma take2_drop: "n + 2 \<le> length xs \<Longrightarrow> take 2 (drop n xs) = [xs ! n, xs ! (n + 1)]"
  by (rule nth_equalityI) (auto simp: less_Suc_eq numeral_eq_Suc)

lemma spec_pseudo_header_eq:
  assumes "20 \<le> length iph" and "8 \<le> length uh"
  shows "spec_pseudo_header iph uh = fake_header iph uh"
  using assms by (simp add: spec_pseudo_header_def fake_header_def take4_drop take2_drop)

lemma length_fake_header: "length (fake_header iph uh) = 12"
  by (simp add: fake_header_def)

lemma ipudp_checksum_verifies_spec:
  assumes "20 \<le> length iph" and "8 \<le> length uh" and "L \<le> length data" and "L < 65536"
  shows "ipudp_checksum iph uh data L = Some 0 \<longleftrightarrow> spec_udp_checksum iph uh (take L data) = 0"
proof -
  define a b c where "a = wsum (fake_header iph uh)" and "b = wsum (take 8 uh)"
    and "c = wsum (take L data)"
  define a' b' c' where "a' = spec_words (fake_header iph uh)" and "b' = spec_words (take 8 uh)"
    and "c' = spec_words (take L data)"
  have L: "L mod 65536 = L" using assms(4) by simp
  have lt: "a + b + c < 4294967296"
    using udp_sum_lt[of iph uh data L] by (simp add: udp_sum_def a_def b_def c_def L)
  have l: "ipudp_checksum iph uh data L = Some 0 \<longleftrightarrow> a + b + c \<noteq> 0 \<and> 65535 dvd a + b + c"
    using assms(1-3) checksum_fold_of_nat_zero[OF lt]
    by (simp add: ipudp_checksum_eq L a_def b_def c_def dvd_eq_mod_eq_0 not_less[symmetric])
  have ba: "a' \<le> 65535 * 6"
    using spec_words_bound[of "fake_header iph uh"] by (simp add: a'_def length_fake_header)
  have "b' \<le> 65535 * ((length (take 8 uh) + 1) div 2)" unfolding b'_def by (rule spec_words_bound)
  also have "\<dots> \<le> 65535 * 4" by (intro mult_le_mono2) simp
  finally have bb: "b' \<le> 65535 * 4" .
  have "c' \<le> 65535 * ((length (take L data) + 1) div 2)" unfolding c'_def by (rule spec_words_bound)
  also have "\<dots> \<le> 65535 * 32768" using assms(4) by (intro mult_le_mono2) simp
  finally have bc: "c' \<le> 65535 * 32768" .
  have lt': "a' + b' + c' < 4294967296" using ba bb bc by simp
  have s: "spec_udp_checksum iph uh (take L data) = spec_fold (a' + b' + c')"
    using lt' assms(1,2)
    by (simp add: spec_udp_checksum_def spec_partial_def spec_pseudo_header_eq a'_def b'_def c'_def)
  have r: "spec_udp_checksum iph uh (take L data) = 0 \<longleftrightarrow> a' + b' + c' \<noteq> 0 \<and> 65535 dvd a' + b' + c'"
    unfolding s using spec_fold_zero[OF lt'] by (simp add: dvd_eq_mod_eq_0)
  have z: "a + b + c = 0 \<longleftrightarrow> a' + b' + c' = 0"
    by (simp add: a_def b_def c_def a'_def b'_def c'_def spec_words_zero)
  have d1: "65535 dvd a' + b' + c'" if "65535 dvd a + b + c"
    using swap_sum_dvd[OF swap_words swap_words swap_words, of "fake_header iph uh" "take 8 uh" "take L data"] that
    by (simp add: a_def b_def c_def a'_def b'_def c'_def)
  have d2: "65535 dvd a + b + c" if "65535 dvd a' + b' + c'"
    using swap_sum_dvd[OF swap_words' swap_words' swap_words', of "fake_header iph uh" "take 8 uh" "take L data"] that
    by (simp add: a_def b_def c_def a'_def b'_def c'_def)
  show ?thesis unfolding l r using z d1 d2 by blast
qed

lemmas spec_eval = spec_udp_checksum_def spec_ip_checksum_def spec_partial_def spec_fold_def
  spec_pseudo_header_def

section \<open>Running the classifier programs\<close>

lemmas bpf_consts =
  BPF_STMT_def BPF_JUMP_def BPF_LD_def BPF_LDX_def BPF_JMP_def BPF_RET_def BPF_H_def BPF_B_def
  BPF_ABS_def BPF_IND_def BPF_MSH_def BPF_JEQ_def BPF_JSET_def BPF_K_def
  ETHERTYPE_IP_def ETHERTYPE_ARP_def ARPOP_REPLY_def ETH_HLEN_def IPPROTO_UDP_def DHCP_CLIENT_PORT_def

lemma dhcp_prog: "dhcp_bpf_filter =
  [\<lparr>code = 0x28, jt = 0, jf = 0, k = 12\<rparr>,
   \<lparr>code = 0x15, jt = 0, jf = 8, k = 0x800\<rparr>,
   \<lparr>code = 0x30, jt = 0, jf = 0, k = 23\<rparr>,
   \<lparr>code = 0x15, jt = 0, jf = 6, k = 17\<rparr>,
   \<lparr>code = 0x28, jt = 0, jf = 0, k = 20\<rparr>,
   \<lparr>code = 0x45, jt = 4, jf = 0, k = 0x1fff\<rparr>,
   \<lparr>code = 0xb1, jt = 0, jf = 0, k = 14\<rparr>,
   \<lparr>code = 0x48, jt = 0, jf = 0, k = 16\<rparr>,
   \<lparr>code = 0x15, jt = 0, jf = 1, k = 68\<rparr>,
   \<lparr>code = 0x06, jt = 0, jf = 0, k = 0xffffffff\<rparr>,
   \<lparr>code = 0x06, jt = 0, jf = 0, k = 0\<rparr>]"
  by (simp add: dhcp_bpf_filter_def bpf_consts)

lemma arp_prog: "arp_bpf_filter =
  [\<lparr>code = 0x28, jt = 0, jf = 0, k = 12\<rparr>,
   \<lparr>code = 0x15, jt = 0, jf = 3, k = 0x806\<rparr>,
   \<lparr>code = 0x28, jt = 0, jf = 0, k = 20\<rparr>,
   \<lparr>code = 0x15, jt = 0, jf = 1, k = 2\<rparr>,
   \<lparr>code = 0x06, jt = 0, jf = 0, k = 0xffffffff\<rparr>,
   \<lparr>code = 0x06, jt = 0, jf = 0, k = 0\<rparr>]"
  by (simp add: arp_bpf_filter_def bpf_consts)

lemma cooked_dhcp_prog: "cooked_dhcp_filter =
  [\<lparr>code = 0x28, jt = 0, jf = 0, k = 12\<rparr>,
   \<lparr>code = 0x15, jt = 0, jf = 0, k = 0x800\<rparr>,
   \<lparr>code = 0x30, jt = 0, jf = 0, k = 9\<rparr>,
   \<lparr>code = 0x15, jt = 0, jf = 6, k = 17\<rparr>,
   \<lparr>code = 0x28, jt = 0, jf = 0, k = 6\<rparr>,
   \<lparr>code = 0x45, jt = 4, jf = 0, k = 0x1fff\<rparr>,
   \<lparr>code = 0xb1, jt = 0, jf = 0, k = 0\<rparr>,
   \<lparr>code = 0x48, jt = 0, jf = 0, k = 2\<rparr>,
   \<lparr>code = 0x15, jt = 0, jf = 1, k = 68\<rparr>,
   \<lparr>code = 0x06, jt = 0, jf = 0, k = 0xffffffff\<rparr>,
   \<lparr>code = 0x06, jt = 0, jf = 0, k = 0\<rparr>]"
  by (simp add: cooked_dhcp_filter_def dhcp_prog set_jf_def sub_k_def ETH_HLEN_def)

lemma cooked_arp_prog: "cooked_arp_filter =
  [\<lparr>code = 0x28, jt = 0, jf = 0, k = 12\<rparr>,
   \<lparr>code = 0x15, jt = 0, jf = 0, k = 0x806\<rparr>,
   \<lparr>code = 0x28, jt = 0, jf = 0, k = 6\<rparr>,
   \<lparr>code = 0x15, jt = 0, jf = 1, k = 2\<rparr>,
   \<lparr>code = 0x06, jt = 0, jf = 0, k = 0xffffffff\<rparr>,
   \<lparr>code = 0x06, jt = 0, jf = 0, k = 0\<rparr>]"
  by (simp add: cooked_arp_filter_def arp_prog set_jf_def sub_k_def ETH_HLEN_def)


lemma x_bound: "unat (((w::u32) AND 60) + v) \<le> 60 + unat v"
proof -
  have "w AND 60 \<le> 60" by (simp add: word_and_le1)
  then have "unat (w AND 60) \<le> 60" by (simp add: word_le_nat_alt)
  moreover have "unat ((w AND 60) + v) \<le> unat (w AND 60) + unat v"
    by (simp add: unat_word_ariths(1))
  ultimately show ?thesis by linarith
qed

lemma x_bound16: "\<not> 2147483648 \<le> unat (((w::u32) AND 60) + 16)"
  using x_bound[of w 16] by simp

lemma x_bound2: "\<not> 2147483648 \<le> unat (((w::u32) AND 60) + 2)"
  using x_bound[of w 2] by simp

lemma dhcp_run:
  "bpf_run dhcp_bpf_filter pkt 0 0 0 =
     Some (if 24 \<le> length pkt \<and> bpf_ldh pkt 12 = 0x800 \<and> bpf_ldb pkt 23 = 17 \<and>
              bpf_ldh pkt 20 AND 0x1fff = 0 \<and>
              unat (push_bit 2 (bpf_ldb pkt 14 AND 0x0f) + 16) + 2 \<le> length pkt \<and>
              bpf_ldh pkt (unat (push_bit 2 (bpf_ldb pkt 14 AND 0x0f) + 16)) = 68
           then 0xffffffff else 0)"
  unfolding dhcp_prog
  apply (subst bpf_run.simps)
  apply (simp add: bpf_consts Let_def x_bound16)
  done

lemma cooked_dhcp_run:
  "bpf_run cooked_dhcp_filter pkt 0 0 0 =
     Some (if 14 \<le> length pkt \<and> bpf_ldb pkt 9 = 17 \<and>
              bpf_ldh pkt 6 AND 0x1fff = 0 \<and>
              unat (push_bit 2 (bpf_ldb pkt 0 AND 0x0f) + 2) + 2 \<le> length pkt \<and>
              bpf_ldh pkt (unat (push_bit 2 (bpf_ldb pkt 0 AND 0x0f) + 2)) = 68
           then 0xffffffff else 0)"
  unfolding cooked_dhcp_prog
  apply (subst bpf_run.simps)
  apply (simp add: bpf_consts Let_def x_bound2)
  done

lemma ucast_16_32_eq: "(ucast (x::u16) :: u32) = ucast y \<longleftrightarrow> x = y"
  by (simp add: word_unat_eq_iff unat_ucast_16_32)

lemma ucast_8_32_eq: "(ucast (x::byte) :: u32) = ucast y \<longleftrightarrow> x = y"
proof -
  have "unat (ucast x :: u32) = unat x" for x :: byte
    using unat_byte_less[of x] by (simp add: unsigned_ucast_eq take_bit_nat_eq_self)
  then show ?thesis by (simp add: word_unat_eq_iff)
qed

lemma ntohs_load16: "ntohs (load16 a b) = load16 b a"
  unfolding ntohs_def load16_def
  apply (rule bit_word_eqI)
  apply (auto simp: bit_simps dest: bit_imp_le_length)
  done

lemma ldh_eq: "bpf_ldh pkt off = ucast (ntohs (load16 (pkt ! off) (pkt ! (off + 1))))"
  by (simp add: bpf_ldh_def ntohs_load16)

lemma ldh_eq_iff: "bpf_ldh pkt off = ucast (v::u16) \<longleftrightarrow> ntohs (load16 (pkt ! off) (pkt ! (off + 1))) = v"
  by (simp add: ldh_eq ucast_16_32_eq)

lemma ldb_eq_iff: "bpf_ldb pkt off = ucast (v::byte) \<longleftrightarrow> pkt ! off = v"
  by (simp add: bpf_ldb_def ucast_8_32_eq)

lemma ucast_and_16_32: "(ucast (x::u16) :: u32) AND ucast y = ucast (x AND y)"
  by (rule bit_word_eqI) (auto simp: bit_simps)

lemma ldh_mask_iff:
  "bpf_ldh pkt off AND 0x1fff = 0 \<longleftrightarrow> ntohs (load16 (pkt ! off) (pkt ! (off + 1))) AND IP_OFFMASK = 0"
proof -
  have a: "(0x1fff::u32) = ucast IP_OFFMASK" by (simp add: IP_OFFMASK_def)
  have b: "(0::u32) = ucast (0::u16)" by simp
  show ?thesis unfolding ldh_eq a ucast_and_16_32
    by (subst b, subst ucast_16_32_eq) simp
qed

lemma msh_unat: "unat (push_bit 2 (bpf_ldb pkt off AND 0x0f) + v) = unat (pkt ! off AND 0x0f) * 4 + unat v"
  if "unat v \<le> 16" for v :: u32
proof -
  have a: "bpf_ldb pkt off AND 0x0f = ucast (pkt ! off AND 0x0f)"
    unfolding bpf_ldb_def by (rule bit_word_eqI) (auto simp: bit_simps dest: bit_imp_le_length)
  have "pkt ! off AND 0x0f \<le> 0x0f" by (simp add: word_and_le1)
  then have b: "unat (pkt ! off AND 0x0f) \<le> 15" by (simp add: word_le_nat_alt)
  have c: "unat (ucast (pkt ! off AND 0x0f) :: u32) = unat (pkt ! off AND 0x0f)"
    using unat_byte_less[of "pkt ! off AND 0x0f"] by (simp add: unsigned_ucast_eq take_bit_nat_eq_self)
  have d: "unat (push_bit 2 (ucast (pkt ! off AND 0x0f) :: u32)) = unat (pkt ! off AND 0x0f) * 4"
    using b by (simp add: push_bit_eq_mult unat_word_ariths(2) c)
  show ?thesis unfolding a using b that by (simp add: unat_word_ariths(1) d)
qed


lemma bpf_accepts_dhcp_raw:
  "bpf_accepts dhcp_bpf_filter pkt \<longleftrightarrow>
     24 \<le> length pkt \<and> bpf_ldh pkt 12 = 0x800 \<and> bpf_ldb pkt 23 = 17 \<and>
     bpf_ldh pkt 20 AND 0x1fff = 0 \<and>
     unat (push_bit 2 (bpf_ldb pkt 14 AND 0x0f) + 16) + 2 \<le> length pkt \<and>
     bpf_ldh pkt (unat (push_bit 2 (bpf_ldb pkt 14 AND 0x0f) + 16)) = 68"
  unfolding bpf_accepts_def dhcp_run by simp

lemma bpf_accepts_cooked_raw:
  "bpf_accepts cooked_dhcp_filter pkt \<longleftrightarrow>
     14 \<le> length pkt \<and> bpf_ldb pkt 9 = 17 \<and>
     bpf_ldh pkt 6 AND 0x1fff = 0 \<and>
     unat (push_bit 2 (bpf_ldb pkt 0 AND 0x0f) + 2) + 2 \<le> length pkt \<and>
     bpf_ldh pkt (unat (push_bit 2 (bpf_ldb pkt 0 AND 0x0f) + 2)) = 68"
  unfolding bpf_accepts_def cooked_dhcp_run by simp

lemma dhcp_filter_link_view:
  fixes frame :: "byte list"
  defines "iph \<equiv> ip_of_bytes (drop 14 frame)"
  defines "ihl \<equiv> unat (ip_hl (ip_of_bytes (drop 14 frame))) * 4"
  shows "bpf_accepts dhcp_bpf_filter frame \<longleftrightarrow>
     24 \<le> length frame \<and> ether_type frame = 0x0800 \<and> ip_p iph = IPPROTO_UDP \<and>
     ntohs (ip_off iph) AND IP_OFFMASK = 0 \<and>
     14 + ihl + 4 \<le> length frame \<and>
     ntohs (uh_dport (udphdr_of_bytes (drop (14 + ihl) frame))) = DHCP_CLIENT_PORT"
proof (cases "24 \<le> length frame")
  case False
  then show ?thesis by (simp add: bpf_accepts_dhcp_raw)
next
  case True
  have hl: "ip_hl iph = frame ! 14 AND 0x0f" and p: "ip_p iph = frame ! 23"
    and off: "ip_off iph = load16 (frame ! 20) (frame ! 21)"
    using True by (simp_all add: iph_def ip_of_bytes_def)
  have x: "unat (push_bit 2 (bpf_ldb frame 14 AND 0x0f) + 16) = ihl + 16"
    using msh_unat[of 16 frame 14] by (simp add: ihl_def iph_def[symmetric] hl)
  have e: "bpf_ldh frame 12 = 0x800 \<longleftrightarrow> ether_type frame = 0x0800"
    using ldh_eq_iff[of frame 12 "0x0800"] by (simp add: ether_type_def)
  have u: "bpf_ldb frame 23 = 17 \<longleftrightarrow> ip_p iph = IPPROTO_UDP"
    using ldb_eq_iff[of frame 23 17] by (simp add: p IPPROTO_UDP_def)
  have f: "bpf_ldh frame 20 AND 0x1fff = 0 \<longleftrightarrow> ntohs (ip_off iph) AND IP_OFFMASK = 0"
    using ldh_mask_iff[of frame 20] by (simp add: off)
  have d: "bpf_ldh frame (ihl + 16) = 68 \<longleftrightarrow>
      ntohs (uh_dport (udphdr_of_bytes (drop (14 + ihl) frame))) = DHCP_CLIENT_PORT"
    if "14 + ihl + 4 \<le> length frame"
  proof -
    have "uh_dport (udphdr_of_bytes (drop (14 + ihl) frame)) =
        load16 (frame ! (ihl + 16)) (frame ! (ihl + 16 + 1))"
      using that by (simp add: udphdr_of_bytes_def add_ac)
    then show ?thesis
      using ldh_eq_iff[of frame "ihl + 16" 68] by (simp add: DHCP_CLIENT_PORT_def)
  qed
  show ?thesis
    unfolding bpf_accepts_dhcp_raw x e u f using True d by auto
qed


lemma dhcp_filter_cooked_view:
  fixes pkt :: "byte list"
  defines "iph \<equiv> ip_of_bytes pkt"
  defines "ihl \<equiv> unat (ip_hl (ip_of_bytes pkt)) * 4"
  shows "bpf_accepts cooked_dhcp_filter pkt \<longleftrightarrow>
     14 \<le> length pkt \<and> ip_p iph = IPPROTO_UDP \<and>
     ntohs (ip_off iph) AND IP_OFFMASK = 0 \<and>
     ihl + 4 \<le> length pkt \<and>
     ntohs (uh_dport (udphdr_of_bytes (drop ihl pkt))) = DHCP_CLIENT_PORT"
proof -
  have hl: "ip_hl iph = pkt ! 0 AND 0x0f" and p: "ip_p iph = pkt ! 9"
    and off: "ip_off iph = load16 (pkt ! 6) (pkt ! 7)"
    by (simp_all add: iph_def ip_of_bytes_def)
  have x: "unat (push_bit 2 (bpf_ldb pkt 0 AND 0x0f) + 2) = ihl + 2"
    using msh_unat[of 2 pkt 0] by (simp add: ihl_def iph_def[symmetric] hl)
  have u: "bpf_ldb pkt 9 = 17 \<longleftrightarrow> ip_p iph = IPPROTO_UDP"
    using ldb_eq_iff[of pkt 9 17] by (simp add: p IPPROTO_UDP_def)
  have f: "bpf_ldh pkt 6 AND 0x1fff = 0 \<longleftrightarrow> ntohs (ip_off iph) AND IP_OFFMASK = 0"
    using ldh_mask_iff[of pkt 6] by (simp add: off)
  have d: "bpf_ldh pkt (ihl + 2) = 68 \<longleftrightarrow>
      ntohs (uh_dport (udphdr_of_bytes (drop ihl pkt))) = DHCP_CLIENT_PORT"
    if "ihl + 4 \<le> length pkt"
  proof -
    have "uh_dport (udphdr_of_bytes (drop ihl pkt)) =
        load16 (pkt ! (ihl + 2)) (pkt ! (ihl + 2 + 1))"
      using that by (simp add: udphdr_of_bytes_def add_ac numeral_3_eq_3)
    then show ?thesis
      using ldh_eq_iff[of pkt "ihl + 2" 68] by (simp add: DHCP_CLIENT_PORT_def)
  qed
  show ?thesis
    unfolding bpf_accepts_cooked_raw x u f using d by auto
qed

lemma set_filter_first:
  assumes "initial_statics w" and "ni_capture_set_filter e w cp protocol = Some (r, w')"
  shows "filters_done w' = 1 \<and> dhcp_filter w' = cooked_dhcp_filter \<and> arp_filter w' = cooked_arp_filter"
  using assms
  unfolding ni_capture_set_filter_def initial_statics_def sys_def Let_def
    cooked_dhcp_filter_def cooked_arp_filter_def
  by (auto split: option.splits if_splits)

lemma set_filter_later:
  assumes "filters_done w \<noteq> 0" and "ni_capture_set_filter e w cp protocol = Some (r, w')"
  shows "filters_done w' = filters_done w \<and> dhcp_filter w' = dhcp_filter w \<and> arp_filter w' = arp_filter w"
  using assms
  unfolding ni_capture_set_filter_def sys_def Let_def
  by (auto split: option.splits if_splits)

lemma set_filter_calls_later:
  assumes "filters_done w \<noteq> 0" and "set_filter_calls e w calls = Some w'"
  shows "filters_done w' = filters_done w \<and> dhcp_filter w' = dhcp_filter w \<and> arp_filter w' = arp_filter w"
  using assms
proof (induction calls arbitrary: w)
  case Nil
  then show ?case by simp
next
  case (Cons c calls)
  obtain cp protocol where c: "c = (cp, protocol)" by (cases c)
  from Cons.prems(2) obtain r w1 where
    s: "ni_capture_set_filter e w cp protocol = Some (r, w1)" and
    t: "set_filter_calls e w1 calls = Some w'"
    by (auto simp: c split: option.splits)
  from set_filter_later[OF Cons.prems(1) s]
  have l: "filters_done w1 = filters_done w" "dhcp_filter w1 = dhcp_filter w" "arp_filter w1 = arp_filter w"
    by simp_all
  then have "filters_done w1 \<noteq> 0" using Cons.prems(1) by simp
  from Cons.IH[OF this t] l show ?case by simp
qed

section \<open>The store under the open path\<close>

lemma timercmp_lt_usecs:
  assumes "0 \<le> tv_usec a" "tv_usec a < 1000000" "0 \<le> tv_usec b" "tv_usec b < 1000000"
  shows "timercmp_lt a b \<longleftrightarrow> usecs a < usecs b"
  using assms unfolding timercmp_lt_def usecs_def by (cases "tv_sec a = tv_sec b") auto

lemmas example_defs =
  example_env_def example_world_def example_device_def example_capture_def example_socket_def
  fresh_world_def env_socket_fails_def env_bind_fails_def

lemmas open_defs =
  ni_dhcp_socket_open_def ni_dhcp_common_open_def ni_capture_open_def ni_capture_set_filter_def
  ni_capture_free_def ni_socket_close_def ni_socket_wrap_def ni_socket_activate_def sys_def Let_def

lemma sys_devices: "sys e w c = (r, w') \<Longrightarrow> devices w' = devices w"
  by (auto simp: sys_def Let_def)

lemma ni_socket_close_devices: "ni_socket_close e w sp = Some w' \<Longrightarrow> devices w' = devices w"
  by (auto simp: ni_socket_close_def sys_def Let_def split: option.splits)

lemma ni_capture_free_devices: "ni_capture_free e w cp = Some w' \<Longrightarrow> devices w' = devices w"
  by (auto simp: ni_capture_free_def split: option.splits dest: ni_socket_close_devices)

lemma ni_capture_set_filter_devices:
  "ni_capture_set_filter e w cp protocol = Some (r, w') \<Longrightarrow> devices w' = devices w"
  by (auto simp: ni_capture_set_filter_def sys_def Let_def split: option.splits if_splits)

lemma ni_capture_open_devices:
  assumes "ni_capture_open e w dp protocol cb = Some (r, w')"
  shows "devices w' = devices w"
  using assms unfolding ni_capture_open_def sys_def Let_def
  by (auto split: option.splits if_splits prod.splits
           dest!: ni_capture_set_filter_devices ni_capture_free_devices)

lemma ni_dhcp_common_open_listen_fd:
  assumes "ni_dhcp_common_open e w dp protocol cb = Some (r, w')" and "devices w dp = Some dev"
  shows "\<exists>dev'. devices w' dp = Some dev' \<and> dev_listen_fd dev' = dev_listen_fd dev"
  using assms unfolding ni_dhcp_common_open_def Let_def
  by (auto split: option.splits if_splits prod.splits bool.splits
           dest!: ni_capture_open_devices ni_capture_free_devices)

section \<open>Claims on the header codec\<close>

text \<open>
  C1.  The claim: building the headers over a payload of length \<open>L\<close> and validating the
  resulting frame yields the payload bytes and the length \<open>L\<close>.  The code stores the IP
  total length, \<open>L + 28\<close>, to \<^verbatim>\<open>*payload_len\<close>.  For the 4-byte payload
  \<open>de ad be ef\<close> sent from 10.0.0.1 to 255.255.255.255 the build yields the 32-byte frame
  below, and \<open>check_packet_header\<close> returns the pointer to the payload with the
  length 32, not 4.
\<close>

theorem build_then_check_length:
  "ni_dhcp_build_send_header
      \<lparr>base = replicate 28 0 @ [0xde, 0xad, 0xbe, 0xef], head = 28, tail = 32\<rparr> 0x0100000a 0xffffffff =
     Some (0, \<lparr>base = [69, 16, 0, 32, 0, 0, 64, 0, 64, 17, 48, 189, 10, 0, 0, 1, 255, 255, 255, 255,
                       0, 68, 0, 67, 0, 12, 87, 177, 0xde, 0xad, 0xbe, 0xef], head = 0, tail = 32\<rparr>) \<and>
   check_packet_header [69, 16, 0, 32, 0, 0, 64, 0, 64, 17, 48, 189, 10, 0, 0, 1, 255, 255, 255, 255,
                       0, 68, 0, 67, 0, 12, 87, 177, 0xde, 0xad, 0xbe, 0xef] 32 =
     Payload [0xde, 0xad, 0xbe, 0xef] 32"
  by (simp add: codec_eval)

theorem build_then_check_length_witness:
  "\<exists>p n. check_packet_header [69, 16, 0, 32, 0, 0, 64, 0, 64, 17, 48, 189, 10, 0, 0, 1, 255, 255, 255, 255,
                       0, 68, 0, 67, 0, 12, 87, 177, 0xde, 0xad, 0xbe, 0xef] 32 = Payload p n \<and>
         length p = 4 \<and> n = 32"
  using build_then_check_length by simp

text \<open>
  C2.  The claim: \<open>check_packet_header\<close> returns a payload only if, among the other
  conditions, the UDP checksum over pseudo header, UDP header and payload verifies to
  zero.  The source runs the UDP checksum over all the bytes it was given behind the UDP
  header, \<^verbatim>\<open>bytes\<close> minus both headers, not over the payload that the lengths in the
  headers declare.  For \<open>padded_frame\<close>, 46 bytes holding a packet of total length 32
  and UDP length 12, the checksum over the 18 bytes behind the UDP header is zero and the
  frame is accepted, while the UDP checksum over pseudo header, UDP header and the 4-byte
  payload does not verify: the source's own function gives 256 there, the
  specification's gives 1.  The same packet without the padding is dropped for its bad
  UDP checksum.
\<close>

theorem padded_frame_accepted:
  "length padded_frame = 46 \<and>
   ntohs (ip_len (ip_of_bytes padded_frame)) = 32 \<and>
   ntohs (uh_ulen (udphdr_of_bytes (drop 20 padded_frame))) = 12 \<and>
   check_packet_header padded_frame 46 =
     Payload [222, 173, 190, 239, 0, 1, 0, 0, 0, 0, 0, 0, 0, 0, 0, 0, 0, 0] 32 \<and>
   ipudp_checksum padded_frame (drop 20 padded_frame) (drop 28 padded_frame) 18 = Some 0 \<and>
   ipudp_checksum padded_frame (drop 20 padded_frame) (drop 28 padded_frame) 4 = Some 256 \<and>
   spec_udp_checksum padded_frame (drop 20 padded_frame) [222, 173, 190, 239] = 1 \<and>
   check_packet_header (take 32 padded_frame) 32 = Null ''bad UDP checksum, ignoring''"
  by (simp add: padded_frame_def codec_eval spec_eval)

theorem padded_frame_accepted_witness:
  "\<exists>p n. check_packet_header padded_frame 46 = Payload p n \<and> length p = 18 \<and> n = 32 \<and>
     spec_udp_checksum padded_frame (drop 20 padded_frame) (take 4 p) = 1"
  using padded_frame_accepted by simp

text \<open>
  What \<open>check_packet_header\<close> does test.  It returns a payload only if the version
  is 4, the header length is at least 5 words (20 bytes), the byte count covers the IP
  total length, the IP header checksum is zero, the protocol is UDP and the checksum over
  pseudo header, UDP header and all the remaining \<open>bytes - ihl - 8\<close> bytes is zero; the
  returned pointer is then behind both headers and the returned length is the IP total
  length.  With a buffer that holds the \<open>bytes\<close> it is called with, any violation
  gives the null return, whose only trace is the debug message.
\<close>

lemma check_packet_header_conditions:
  fixes data :: "byte list" and bytes :: nat
  defines "iph \<equiv> ip_of_bytes data"
  defines "ihl \<equiv> unat (ip_hl (ip_of_bytes data)) * 4"
  defines "valid \<equiv> ip_v iph = 4 \<and> 5 \<le> unat (ip_hl iph) \<and> 20 \<le> ihl \<and>
              unat (ntohs (ip_len iph)) \<le> bytes \<and>
              checksum data ihl = Some 0 \<and>
              ip_p iph = IPPROTO_UDP \<and>
              ipudp_checksum data (drop ihl data) (drop (ihl + 8) data) (bytes - ihl - 8) = Some 0"
  shows "(check_packet_header data bytes = Payload p n \<longrightarrow>
            valid \<and> p = drop (ihl + 8) data \<and> n = unat (ntohs (ip_len iph))) \<and>
         (data \<noteq> [] \<and> bytes \<le> length data \<and> \<not> valid \<longrightarrow>
            (\<exists>msg. check_packet_header data bytes = Null msg))"
proof -
  have 1: "valid \<and> p = drop (ihl + 8) data \<and> n = unat (ntohs (ip_len iph))"
    if "check_packet_header data bytes = Payload p n"
    using that unfolding check_packet_header_def Let_def ihl_def iph_def valid_def
    by (auto split: if_splits option.splits simp: not_less add.commute)
  have 2: "\<exists>msg. check_packet_header data bytes = Null msg"
    if "data \<noteq> []" "bytes \<le> length data" "\<not> valid"
  proof (cases "check_packet_header data bytes")
    case Bad_read
    with check_packet_header_no_bad_read[OF that(1,2)] show ?thesis by simp
  next
    case (Null msg)
    then show ?thesis by blast
  next
    case (Payload p' n')
    have "valid"
      using Payload unfolding check_packet_header_def Let_def ihl_def iph_def valid_def
      by (auto split: if_splits option.splits simp: not_less add.commute)
    with that(3) show ?thesis by simp
  qed
  show ?thesis using 1 2 by blast
qed

text \<open>
  C4.  For a 300-byte payload, source 0.0.0.0 and destination 0.0.0.0, the build
  succeeds and leaves a 328-byte frame in front of the untouched payload.  Its IP header
  has version 4, header length 5, TOS \<open>IPTOS_LOWDELAY\<close>, total length 328, ID 0, the
  flags/offset word \<open>IP_DF\<close> (DF set, MF clear, fragment offset 0), TTL \<open>IPDEFTTL\<close>,
  protocol UDP, source 0.0.0.0, destination 255.255.255.255, and the checksum
  \<open>0x3996\<close>: the header is the twenty bytes written out below, and its checksum
  verifies to zero, for the source's \<open>checksum\<close> and for the specification's
  \<open>spec_ip_checksum\<close>.  Its UDP header has source port 68, destination port 67,
  length 308, and a checksum that verifies to zero over the pseudo header (0.0.0.0,
  255.255.255.255, zero, 17, 308), the UDP header and the 300 bytes of payload, for the
  source's \<open>ipudp_checksum\<close> and for the specification's \<open>spec_udp_checksum\<close>.
\<close>

theorem discover_egress_frame:
  assumes "28 \<le> head bp" and "tail bp = head bp + 300" and "tail bp \<le> length (base bp)"
  shows "\<exists>bp'. ni_dhcp_build_send_header bp 0 0 = Some (0, bp') \<and>
           ni_buffer_count bp' = 328 \<and>
           drop 28 (ni_buffer_head bp') = ni_buffer_head bp \<and>
           ip_v (ip_of_bytes (ni_buffer_head bp')) = 4 \<and>
           ip_hl (ip_of_bytes (ni_buffer_head bp')) = 5 \<and>
           ip_tos (ip_of_bytes (ni_buffer_head bp')) = IPTOS_LOWDELAY \<and>
           ntohs (ip_len (ip_of_bytes (ni_buffer_head bp'))) = 328 \<and>
           ip_id (ip_of_bytes (ni_buffer_head bp')) = 0 \<and>
           ntohs (ip_off (ip_of_bytes (ni_buffer_head bp'))) = IP_DF \<and>
           ip_ttl (ip_of_bytes (ni_buffer_head bp')) = IPDEFTTL \<and>
           ip_p (ip_of_bytes (ni_buffer_head bp')) = IPPROTO_UDP \<and>
           ip_src (ip_of_bytes (ni_buffer_head bp')) = 0 \<and>
           ip_dst (ip_of_bytes (ni_buffer_head bp')) = INADDR_BROADCAST \<and>
           checksum (ni_buffer_head bp') 20 = Some 0 \<and>
           ntohs (uh_sport (udphdr_of_bytes (drop 20 (ni_buffer_head bp')))) = DHCP_CLIENT_PORT \<and>
           ntohs (uh_dport (udphdr_of_bytes (drop 20 (ni_buffer_head bp')))) = DHCP_SERVER_PORT \<and>
           ntohs (uh_ulen (udphdr_of_bytes (drop 20 (ni_buffer_head bp')))) = 308 \<and>
           ipudp_checksum (ni_buffer_head bp') (drop 20 (ni_buffer_head bp'))
              (drop 28 (ni_buffer_head bp')) 300 = Some 0 \<and>
           take 20 (ni_buffer_head bp') =
             [69, 16, 1, 72, 0, 0, 64, 0, 64, 17, 57, 150, 0, 0, 0, 0, 255, 255, 255, 255] \<and>
           spec_ip_checksum (take 20 (ni_buffer_head bp')) = 0 \<and>
           take 6 (drop 20 (ni_buffer_head bp')) = [0, 68, 0, 67, 1, 52] \<and>
           spec_pseudo_header (ni_buffer_head bp') (drop 20 (ni_buffer_head bp')) =
             [0, 0, 0, 0, 255, 255, 255, 255, 0, 17, 1, 52] \<and>
           spec_udp_checksum (ni_buffer_head bp') (drop 20 (ni_buffer_head bp'))
              (take 300 (drop 28 (ni_buffer_head bp'))) = 0"
proof -
  have wf: "28 \<le> head bp" "head bp \<le> tail bp" "tail bp \<le> length (base bp)"
    using assms by simp_all
  have cb: "ni_buffer_count bp = 300" using assms by (simp add: ni_buffer_count_def)
  have ul: "tail bp - head bp + 8 = 308" using assms by simp
  define udp0 where "udp0 = \<lparr>uh_sport = htons DHCP_CLIENT_PORT, uh_dport = htons DHCP_SERVER_PORT,
                    uh_ulen = htons 308, uh_sum = 0\<rparr>"
  define ip0 where "ip0 = \<lparr>ip_hl = 5, ip_v = 4, ip_tos = IPTOS_LOWDELAY,
                   ip_len = htons 328, ip_id = 0,
                   ip_off = htons IP_DF, ip_ttl = IPDEFTTL, ip_p = IPPROTO_UDP,
                   ip_sum = 0, ip_src = 0, ip_dst = INADDR_BROADCAST\<rparr>"
  have "\<exists>isum usum bp'.
           checksum (ip_bytes ip0) 20 = Some isum \<and>
           ipudp_checksum (ip_bytes (ip0\<lparr>ip_sum := isum\<rparr>)) (udphdr_bytes udp0)
              (ni_buffer_head bp) 300 = Some usum \<and>
           ni_dhcp_build_send_header bp 0 0 = Some (0, bp') \<and>
           ni_buffer_count bp' = 328 \<and>
           ni_buffer_head bp' =
             ip_bytes (ip0\<lparr>ip_sum := isum\<rparr>) @ udphdr_bytes (udp0\<lparr>uh_sum := usum\<rparr>) @ ni_buffer_head bp"
    using build_frame[OF wf, of 0 0] unfolding ul cb ip0_def udp0_def by simp
  then obtain isum usum bp' where 
    isum: "checksum (ip_bytes ip0) 20 = Some isum" and
    usum: "ipudp_checksum (ip_bytes (ip0\<lparr>ip_sum := isum\<rparr>)) (udphdr_bytes udp0)
              (ni_buffer_head bp) 300 = Some usum" and
    b: "ni_dhcp_build_send_header bp 0 0 = Some (0, bp')" and
    cnt: "ni_buffer_count bp' = 328" and
    hd: "ni_buffer_head bp' =
      ip_bytes (ip0\<lparr>ip_sum := isum\<rparr>) @ udphdr_bytes (udp0\<lparr>uh_sum := usum\<rparr>) @ ni_buffer_head bp"
    by blast
  have iph: "ip_of_bytes (ni_buffer_head bp') = ip0\<lparr>ip_sum := isum\<rparr>"
    unfolding hd ip_of_bytes_ip_bytes by (simp add: ip0_def)
  have d20: "drop 20 (ni_buffer_head bp') = udphdr_bytes (udp0\<lparr>uh_sum := usum\<rparr>) @ ni_buffer_head bp"
    by (simp add: hd)
  have d28: "drop 28 (ni_buffer_head bp') = ni_buffer_head bp"
    by (simp add: hd)
  have c1: "checksum (ni_buffer_head bp') 20 = Some 0"
    unfolding hd by (rule ip_checksum_verifies[OF _ isum]) (simp add: ip0_def)
  have c2: "ipudp_checksum (ni_buffer_head bp') (drop 20 (ni_buffer_head bp'))
              (ni_buffer_head bp) 300 = Some 0"
    unfolding d20 unfolding hd
    by (rule udp_checksum_verifies[OF _ _ usum]) (simp_all add: udp0_def)
  have f: "ip_of_bytes (ni_buffer_head bp') = ip0\<lparr>ip_sum := isum\<rparr>"
    "udphdr_of_bytes (drop 20 (ni_buffer_head bp')) = udp0\<lparr>uh_sum := usum\<rparr>"
    by (simp_all add: iph d20 udphdr_of_bytes_udphdr_bytes)
  have iv: "isum = 0x9639"
    using isum by (simp add: ip0_def codec_eval)
  have lp: "300 \<le> length (ni_buffer_head bp)"
    using assms by (simp add: ni_buffer_head_def)
  have lh: "328 \<le> length (ni_buffer_head bp')"
    unfolding hd using lp by simp
  have t20: "take 20 (ni_buffer_head bp') =
      [69, 16, 1, 72, 0, 0, 64, 0, 64, 17, 57, 150, 0, 0, 0, 0, 255, 255, 255, 255]"
    unfolding hd iv by (simp add: ip0_def codec_eval)
  have s1: "spec_ip_checksum (take 20 (ni_buffer_head bp')) = 0"
    using checksum_verifies_spec[of 20 "ni_buffer_head bp'"] c1 lh by simp
  have s1': "spec_ip_checksum
      [69, 16, 1, 72, 0, 0, 64, 0, 64, 17, 57, 150, 0, 0, 0, 0, 255, 255, 255, 255] = 0"
    using s1 unfolding t20 .
  have t6: "take 6 (drop 20 (ni_buffer_head bp')) = [0, 68, 0, 67, 1, 52]"
    unfolding d20 by (simp add: udp0_def codec_eval)
  have ph: "spec_pseudo_header (ni_buffer_head bp') (drop 20 (ni_buffer_head bp')) =
      [0, 0, 0, 0, 255, 255, 255, 255, 0, 17, 1, 52]"
    unfolding d20 unfolding hd iv by (simp add: spec_pseudo_header_def ip0_def udp0_def codec_eval)
  have s2: "spec_udp_checksum (ni_buffer_head bp') (drop 20 (ni_buffer_head bp'))
              (take 300 (ni_buffer_head bp)) = 0"
    using ipudp_checksum_verifies_spec[of "ni_buffer_head bp'" "drop 20 (ni_buffer_head bp')"
        300 "ni_buffer_head bp"] c2 lh lp by simp
  show ?thesis
    apply (rule exI[of _ bp'])
    apply (simp only: b cnt d28 c1 c2 f t20 s1' t6 ph s2)
    apply (simp add: ip0_def udp0_def ntohs_htons)
    done
qed

theorem discover_egress_frame_witness:
  "(28::nat) \<le> head \<lparr>base = replicate 328 (0::byte), head = 28, tail = 328\<rparr> \<and>
   tail \<lparr>base = replicate 328 (0::byte), head = 28, tail = 328\<rparr> =
     head \<lparr>base = replicate 328 (0::byte), head = 28, tail = 328\<rparr> + 300 \<and>
   tail \<lparr>base = replicate 328 (0::byte), head = 28, tail = 328\<rparr> \<le>
     length (base \<lparr>base = replicate 328 (0::byte), head = 28, tail = 328\<rparr>) \<and>
   (\<exists>bp'. ni_dhcp_build_send_header \<lparr>base = replicate 328 0, head = 28, tail = 328\<rparr> 0 0 = Some (0, bp') \<and>
          ni_buffer_count bp' = 328 \<and>
          ip_dst (ip_of_bytes (ni_buffer_head bp')) = INADDR_BROADCAST \<and>
          checksum (ni_buffer_head bp') 20 = Some 0 \<and>
          take 20 (ni_buffer_head bp') =
            [69, 16, 1, 72, 0, 0, 64, 0, 64, 17, 57, 150, 0, 0, 0, 0, 255, 255, 255, 255] \<and>
          spec_ip_checksum (take 20 (ni_buffer_head bp')) = 0 \<and>
          spec_udp_checksum (ni_buffer_head bp') (drop 20 (ni_buffer_head bp'))
             (take 300 (drop 28 (ni_buffer_head bp'))) = 0)"
proof -
  let ?bp = "\<lparr>base = replicate 328 (0::byte), head = 28, tail = 328\<rparr>"
  have h: "28 \<le> head ?bp" "tail ?bp = head ?bp + 300" "tail ?bp \<le> length (base ?bp)"
    by simp_all
  from discover_egress_frame[OF h] obtain bp' where
    "ni_dhcp_build_send_header ?bp 0 0 = Some (0, bp')" "ni_buffer_count bp' = 328"
    "ip_dst (ip_of_bytes (ni_buffer_head bp')) = INADDR_BROADCAST"
    "checksum (ni_buffer_head bp') 20 = Some 0"
    "take 20 (ni_buffer_head bp') =
       [69, 16, 1, 72, 0, 0, 64, 0, 64, 17, 57, 150, 0, 0, 0, 0, 255, 255, 255, 255]"
    "spec_ip_checksum (take 20 (ni_buffer_head bp')) = 0"
    "spec_udp_checksum (ni_buffer_head bp') (drop 20 (ni_buffer_head bp'))
       (take 300 (drop 28 (ni_buffer_head bp'))) = 0"
    by blast
  with h show ?thesis by blast
qed

text \<open>
  C8.  The claim: flipping any single bit of the IP or UDP header of an accepted frame
  gives a frame that is dropped.  This fails for the four bits of the header length
  field, which decides how many bytes the IP checksum covers and where the UDP header
  starts: the 36-byte frame below (192.0.2.1:67 to 255.255.255.255:68, eight payload
  bytes, both checksums right) is accepted, and so is the frame with bit 1 of byte 0
  flipped (header length 7 instead of 5).
\<close>

theorem header_bit_flip_counterexample:
  "check_packet_header
     [69, 0, 0, 36, 0, 0, 64, 0, 64, 17, 120, 200, 192, 0, 2, 1, 255, 255, 255, 255,
      0, 67, 0, 68, 0, 16, 253, 104, 0, 0, 0, 0, 254, 15, 65, 205] 36 =
     Payload [0, 0, 0, 0, 254, 15, 65, 205] 36 \<and>
   check_packet_header
     ([69, 0, 0, 36, 0, 0, 64, 0, 64, 17, 120, 200, 192, 0, 2, 1, 255, 255, 255, 255,
       0, 67, 0, 68, 0, 16, 253, 104, 0, 0, 0, 0, 254, 15, 65, 205]
      [0 := [69, 0, 0, 36, 0, 0, 64, 0, 64, 17, 120, 200, 192, 0, 2, 1, 255, 255, 255, 255,
             0, 67, 0, 68, 0, 16, 253, 104, 0, 0, 0, 0, 254, 15, 65, 205] ! 0 XOR push_bit 1 1]) 36 =
     Payload [] 36"
  by (simp add: codec_eval)

text \<open>
  C8, as amended.  For every frame that \<open>check_packet_header\<close> accepts, flipping any
  single bit of its IP header (all \<open>4 * ip_hl\<close> bytes of it) other than the four bits
  of the header length field, or any single bit of its 8-byte UDP header, gives a frame
  that \<open>check_packet_header\<close> drops.
\<close>

theorem header_bit_flip_dropped:
  assumes "check_packet_header data bytes = Payload p n"
    and "i < unat (ip_hl (ip_of_bytes data)) * 4 + 8" and "b < 8"
    and "\<not> (i = 0 \<and> b < 4)"
  shows "\<exists>msg. check_packet_header (data[i := data ! i XOR push_bit b 1]) bytes = Null msg"
proof (cases "i < unat (ip_hl (ip_of_bytes data)) * 4")
  case True
  from flip_ip_header_dropped[OF assms(1) True assms(3,4)] show ?thesis .
next
  case False
  then have "unat (ip_hl (ip_of_bytes data)) * 4 \<le> i" by simp
  from flip_udp_header_dropped[OF assms(1) this assms(2,3)] show ?thesis by blast
qed

theorem header_bit_flip_dropped_witness:
  "check_packet_header
     [69, 0, 0, 36, 0, 0, 64, 0, 64, 17, 120, 200, 192, 0, 2, 1, 255, 255, 255, 255,
      0, 67, 0, 68, 0, 16, 253, 104, 0, 0, 0, 0, 254, 15, 65, 205] 36 =
     Payload [0, 0, 0, 0, 254, 15, 65, 205] 36 \<and>
   (\<exists>msg. check_packet_header
     ([69, 0, 0, 36, 0, 0, 64, 0, 64, 17, 120, 200, 192, 0, 2, 1, 255, 255, 255, 255,
       0, 67, 0, 68, 0, 16, 253, 104, 0, 0, 0, 0, 254, 15, 65, 205]
      [23 := [69, 0, 0, 36, 0, 0, 64, 0, 64, 17, 120, 200, 192, 0, 2, 1, 255, 255, 255, 255,
              0, 67, 0, 68, 0, 16, 253, 104, 0, 0, 0, 0, 254, 15, 65, 205] ! 23 XOR push_bit 0 1]) 36 =
     Null msg)"
proof -
  let ?f = "[69, 0, 0, 36, 0, 0, 64, 0, 64, 17, 120, 200, 192, 0, 2, 1, 255, 255, 255, 255,
      0, 67, 0, 68, 0, 16, 253, 104, 0, 0, 0, 0, 254, 15, 65, 205] :: byte list"
  have a: "check_packet_header ?f 36 = Payload [0, 0, 0, 0, 254, 15, 65, 205] 36"
    by (simp add: codec_eval)
  have h: "23 < unat (ip_hl (ip_of_bytes ?f)) * 4 + 8" "(0::nat) < 8" "\<not> ((23::nat) = 0 \<and> (0::nat) < 4)"
    by (simp_all add: ip_of_bytes_def)
  from header_bit_flip_dropped[OF a h] a show ?thesis by blast
qed

section \<open>Claims on the classifier programs\<close>

text \<open>
  C3.  The claim: the DHCP program accepts exactly the unfragmented IPv4/UDP frames to
  port 68 and rejects every frame with a non-zero fragment offset or with the MF flag
  set.  The program masks the flags/offset word with \<open>0x1fff\<close>, the fragment offset
  alone: the frame below, a first fragment (MF set, offset 0) to UDP port 68, is accepted.
\<close>

theorem dhcp_filter_accepts_first_fragment:
  "bpf_accepts dhcp_bpf_filter
     [255, 255, 255, 255, 255, 255, 0, 17, 34, 51, 68, 85, 8, 0,
      69, 0, 0, 28, 0, 0, 32, 0, 64, 17, 0, 0, 192, 0, 2, 1, 255, 255, 255, 255,
      0, 67, 0, 68, 0, 8, 0, 0] \<and>
   ntohs (ip_off (ip_of_bytes (drop 14
     [255, 255, 255, 255, 255, 255, 0, 17, 34, 51, 68, 85, 8, 0,
      69, 0, 0, 28, 0, 0, 32, 0, 64, 17, 0, 0, 192, 0, 2, 1, 255, 255, 255, 255,
      0, 67, 0, 68, 0, 8, 0, 0]))) AND IP_MF = IP_MF"
  by (simp add: bpf_accepts_dhcp_raw bpf_ldh_def bpf_ldb_def load16_def ip_of_bytes_def ntohs_def IP_MF_def)

text \<open>
  C3, as amended.  The DHCP program as the source defines it accepts exactly the
  link-layer frames that are long enough for its loads (24 bytes, and the UDP destination
  port within the frame) and have EtherType IPv4, IP protocol UDP, fragment offset 0 and
  UDP destination port 68, the port being read behind an IP header of \<open>4 * ip_hl\<close>
  bytes; it rejects every other frame, so every IPv6 frame, every TCP frame, every frame
  with a non-zero fragment offset and every UDP frame to another port.  The MF flag is
  not looked at.  After the patch of \<open>ni_capture_set_filter\<close> the EtherType comparison
  decides nothing any more, and the program accepts exactly the cooked packets (starting
  at the IP header) of at least 14 bytes that are UDP with fragment offset 0 and
  destination port 68.
\<close>

theorem dhcp_filter_accepts:
  "(bpf_accepts dhcp_bpf_filter frame \<longleftrightarrow>
      24 \<le> length frame \<and> ether_type frame = 0x0800 \<and>
      ip_p (ip_of_bytes (drop 14 frame)) = IPPROTO_UDP \<and>
      ntohs (ip_off (ip_of_bytes (drop 14 frame))) AND IP_OFFMASK = 0 \<and>
      14 + unat (ip_hl (ip_of_bytes (drop 14 frame))) * 4 + 4 \<le> length frame \<and>
      ntohs (uh_dport (udphdr_of_bytes
        (drop (14 + unat (ip_hl (ip_of_bytes (drop 14 frame))) * 4) frame))) = DHCP_CLIENT_PORT) \<and>
   (initial_statics w \<and> ni_capture_set_filter e w cp protocol = Some (r, w') \<longrightarrow>
      (bpf_accepts (dhcp_filter w') pkt \<longleftrightarrow>
         14 \<le> length pkt \<and>
         ip_p (ip_of_bytes pkt) = IPPROTO_UDP \<and>
         ntohs (ip_off (ip_of_bytes pkt)) AND IP_OFFMASK = 0 \<and>
         unat (ip_hl (ip_of_bytes pkt)) * 4 + 4 \<le> length pkt \<and>
         ntohs (uh_dport (udphdr_of_bytes (drop (unat (ip_hl (ip_of_bytes pkt)) * 4) pkt))) =
           DHCP_CLIENT_PORT))"
proof (intro conjI impI)
  show "bpf_accepts dhcp_bpf_filter frame \<longleftrightarrow>
      24 \<le> length frame \<and> ether_type frame = 0x0800 \<and>
      ip_p (ip_of_bytes (drop 14 frame)) = IPPROTO_UDP \<and>
      ntohs (ip_off (ip_of_bytes (drop 14 frame))) AND IP_OFFMASK = 0 \<and>
      14 + unat (ip_hl (ip_of_bytes (drop 14 frame))) * 4 + 4 \<le> length frame \<and>
      ntohs (uh_dport (udphdr_of_bytes
        (drop (14 + unat (ip_hl (ip_of_bytes (drop 14 frame))) * 4) frame))) = DHCP_CLIENT_PORT"
    by (rule dhcp_filter_link_view)
next
  assume "initial_statics w \<and> ni_capture_set_filter e w cp protocol = Some (r, w')"
  then have "dhcp_filter w' = cooked_dhcp_filter"
    using set_filter_first[of w e cp protocol r w'] by simp
  then show "bpf_accepts (dhcp_filter w') pkt \<longleftrightarrow>
         14 \<le> length pkt \<and>
         ip_p (ip_of_bytes pkt) = IPPROTO_UDP \<and>
         ntohs (ip_off (ip_of_bytes pkt)) AND IP_OFFMASK = 0 \<and>
         unat (ip_hl (ip_of_bytes pkt)) * 4 + 4 \<le> length pkt \<and>
         ntohs (uh_dport (udphdr_of_bytes (drop (unat (ip_hl (ip_of_bytes pkt)) * 4) pkt))) =
           DHCP_CLIENT_PORT"
    using dhcp_filter_cooked_view[of pkt] by simp
qed

theorem dhcp_filter_accepts_witness:
  "bpf_accepts dhcp_bpf_filter
     [255, 255, 255, 255, 255, 255, 0, 17, 34, 51, 68, 85, 8, 0,
      69, 16, 0, 28, 0, 0, 64, 0, 64, 17, 0, 0, 192, 0, 2, 1, 255, 255, 255, 255,
      0, 67, 0, 68, 0, 8, 0, 0] \<and>
   initial_statics (example_world ETHERTYPE_IP Fn_ni_dhcp_socket_recv) \<and>
   (\<exists>r w'. ni_capture_set_filter example_env (example_world ETHERTYPE_IP Fn_ni_dhcp_socket_recv) 1
              ETHERTYPE_IP = Some (r, w') \<and>
      bpf_accepts (dhcp_filter w')
        [69, 16, 0, 28, 0, 0, 64, 0, 64, 17, 0, 0, 192, 0, 2, 1, 255, 255, 255, 255,
         0, 67, 0, 68, 0, 8, 0, 0])"
proof -
  let ?w = "example_world ETHERTYPE_IP Fn_ni_dhcp_socket_recv"
  let ?p = "[69, 16, 0, 28, 0, 0, 64, 0, 64, 17, 0, 0, 192, 0, 2, 1, 255, 255, 255, 255,
         0, 67, 0, 68, 0, 8, 0, 0] :: byte list"
  let ?f = "[255, 255, 255, 255, 255, 255, 0, 17, 34, 51, 68, 85, 8, 0] @ ?p"
  have i: "initial_statics ?w" by (simp add: initial_statics_def example_defs)
  have "\<exists>r w'. ni_capture_set_filter example_env ?w 1 ETHERTYPE_IP = Some (r, w')"
    by (simp add: ni_capture_set_filter_def sys_def Let_def example_defs)
  then obtain r w' where s: "ni_capture_set_filter example_env ?w 1 ETHERTYPE_IP = Some (r, w')"
    by blast
  have c: "14 \<le> length ?p" "ip_p (ip_of_bytes ?p) = IPPROTO_UDP"
    "ntohs (ip_off (ip_of_bytes ?p)) AND IP_OFFMASK = 0"
    "unat (ip_hl (ip_of_bytes ?p)) * 4 + 4 \<le> length ?p"
    "ntohs (uh_dport (udphdr_of_bytes (drop (unat (ip_hl (ip_of_bytes ?p)) * 4) ?p))) = DHCP_CLIENT_PORT"
    by (simp_all add: ip_of_bytes_def udphdr_of_bytes_def load16_def ntohs_def IPPROTO_UDP_def
        IP_OFFMASK_def DHCP_CLIENT_PORT_def)
  have l: "24 \<le> length ?f" "ether_type ?f = 0x0800"
    "ip_p (ip_of_bytes (drop 14 ?f)) = IPPROTO_UDP"
    "ntohs (ip_off (ip_of_bytes (drop 14 ?f))) AND IP_OFFMASK = 0"
    "14 + unat (ip_hl (ip_of_bytes (drop 14 ?f))) * 4 + 4 \<le> length ?f"
    "ntohs (uh_dport (udphdr_of_bytes
        (drop (14 + unat (ip_hl (ip_of_bytes (drop 14 ?f))) * 4) ?f))) = DHCP_CLIENT_PORT"
    by (simp_all add: ip_of_bytes_def udphdr_of_bytes_def load16_def ntohs_def IPPROTO_UDP_def
        IP_OFFMASK_def DHCP_CLIENT_PORT_def ether_type_def)
  from dhcp_filter_accepts[of ?f ?w example_env 1 ETHERTYPE_IP r w' ?p] i s c l
  have "bpf_accepts dhcp_bpf_filter ?f \<and> bpf_accepts (dhcp_filter w') ?p" by blast
  with i s show ?thesis by auto
qed

text \<open>
  C9.  The patch for cooked packets is applied by the first call of
  \<open>ni_capture_set_filter\<close> and by no later one: after any non-empty sequence of calls,
  whatever the captures, protocols and results of \<^verbatim>\<open>setsockopt\<close>, the flag is 1, both
  arrays are the source's arrays patched once, each patched offset is 14 less than the
  source's, and every other constant is the source's.
\<close>

theorem cooked_patch_once:
  assumes "initial_statics w" and "calls \<noteq> []" and "set_filter_calls e w calls = Some w'"
  shows "filters_done w' = 1 \<and>
         dhcp_filter w' =
           sub_k (sub_k (sub_k (sub_k (set_jf dhcp_bpf_filter 1 0) 2 ETH_HLEN) 4 ETH_HLEN) 6 ETH_HLEN)
             7 ETH_HLEN \<and>
         arp_filter w' = sub_k (set_jf arp_bpf_filter 1 0) 2 ETH_HLEN \<and>
         (\<forall>i \<in> {2, 4, 6, 7}. unat (k (dhcp_filter w' ! i)) + 14 = unat (k (dhcp_bpf_filter ! i))) \<and>
         unat (k (arp_filter w' ! 2)) + 14 = unat (k (arp_bpf_filter ! 2)) \<and>
         (\<forall>i < 11. i \<notin> {2, 4, 6, 7} \<longrightarrow> k (dhcp_filter w' ! i) = k (dhcp_bpf_filter ! i)) \<and>
         (\<forall>i < 6. i \<noteq> 2 \<longrightarrow> k (arp_filter w' ! i) = k (arp_bpf_filter ! i))"
proof -
  obtain c rest where calls: "calls = c # rest" using assms(2) by (cases calls) auto
  obtain cp protocol where c: "c = (cp, protocol)" by (cases c)
  from assms(3) obtain r w1 where
    s: "ni_capture_set_filter e w cp protocol = Some (r, w1)" and
    t: "set_filter_calls e w1 rest = Some w'"
    by (auto simp: calls c split: option.splits)
  from set_filter_first[OF assms(1) s]
  have f: "filters_done w1 = 1" "dhcp_filter w1 = cooked_dhcp_filter" "arp_filter w1 = cooked_arp_filter"
    by simp_all
  then have "filters_done w1 \<noteq> 0" by simp
  from set_filter_calls_later[OF this t] f
  have g: "filters_done w' = 1" "dhcp_filter w' = cooked_dhcp_filter" "arp_filter w' = cooked_arp_filter"
    by simp_all
  have i11: "i < 11 \<Longrightarrow> i = 0 \<or> i = 1 \<or> i = 2 \<or> i = 3 \<or> i = 4 \<or> i = 5 \<or> i = 6 \<or> i = 7 \<or> i = 8 \<or> i = 9 \<or> i = 10"
    for i :: nat by presburger
  have i6: "i < 6 \<Longrightarrow> i = 0 \<or> i = 1 \<or> i = 2 \<or> i = 3 \<or> i = 4 \<or> i = 5"
    for i :: nat by presburger
  have a: "\<forall>i \<in> {2, 4, 6, 7}. unat (k (cooked_dhcp_filter ! i)) + 14 = unat (k (dhcp_bpf_filter ! i))"
    by (simp add: cooked_dhcp_prog dhcp_prog)
  have b: "unat (k (cooked_arp_filter ! 2)) + 14 = unat (k (arp_bpf_filter ! 2))"
    by (simp add: cooked_arp_prog arp_prog)
  have c: "\<forall>i < 11. i \<notin> {2, 4, 6, 7} \<longrightarrow> k (cooked_dhcp_filter ! i) = k (dhcp_bpf_filter ! i)"
  proof (intro allI impI)
    fix i :: nat assume h: "i < 11" "i \<notin> {2, 4, 6, 7}"
    from i11[OF h(1)] h(2) show "k (cooked_dhcp_filter ! i) = k (dhcp_bpf_filter ! i)"
      by (elim disjE) (simp_all add: cooked_dhcp_prog dhcp_prog)
  qed
  have d: "\<forall>i < 6. i \<noteq> 2 \<longrightarrow> k (cooked_arp_filter ! i) = k (arp_bpf_filter ! i)"
  proof (intro allI impI)
    fix i :: nat assume h: "i < 6" "i \<noteq> 2"
    from i6[OF h(1)] h(2) show "k (cooked_arp_filter ! i) = k (arp_bpf_filter ! i)"
      by (elim disjE) (simp_all add: cooked_arp_prog arp_prog)
  qed
  show ?thesis
    unfolding g using a b c d
    unfolding cooked_dhcp_filter_def[symmetric] cooked_arp_filter_def[symmetric] by blast
qed

theorem cooked_patch_once_witness:
  "initial_statics (example_world ETHERTYPE_IP Fn_ni_dhcp_socket_recv) \<and>
   [(1, ETHERTYPE_IP), (1, ETHERTYPE_ARP), (1, ETHERTYPE_IP)] \<noteq> [] \<and>
   (\<exists>w'. set_filter_calls example_env (example_world ETHERTYPE_IP Fn_ni_dhcp_socket_recv)
            [(1, ETHERTYPE_IP), (1, ETHERTYPE_ARP), (1, ETHERTYPE_IP)] = Some w' \<and>
      filters_done w' = 1 \<and> unat (k (dhcp_filter w' ! 2)) + 14 = unat (k (dhcp_bpf_filter ! 2)))"
proof -
  let ?w = "example_world ETHERTYPE_IP Fn_ni_dhcp_socket_recv"
  let ?calls = "[(1, ETHERTYPE_IP), (1, ETHERTYPE_ARP), (1, ETHERTYPE_IP)] :: (ptr \<times> int) list"
  have i: "initial_statics ?w" by (simp add: initial_statics_def example_defs)
  have n: "?calls \<noteq> []" by simp
  have "\<exists>w'. set_filter_calls example_env ?w ?calls = Some w'"
    by (simp add: ni_capture_set_filter_def sys_def Let_def example_defs)
  then obtain w' where s: "set_filter_calls example_env ?w ?calls = Some w'" by blast
  from cooked_patch_once[OF i n s]
  have "filters_done w' = 1 \<and> unat (k (dhcp_filter w' ! 2)) + 14 = unat (k (dhcp_bpf_filter ! 2))"
    by blast
  with i n s show ?thesis by blast
qed

section \<open>Claims on the adapters\<close>

text \<open>
  C5.  If the device holds a capture whose socket exists and has no error and whose
  protocol is the requested one, \<open>ni_dhcp_common_open\<close> returns 0 and leaves the whole
  state as it is: the store (so the device keeps its capture), the filter arrays and the
  list of system calls (so no filter is attached and no socket is made).  For the DHCP
  adapter, which makes the dummy UDP socket only while \<open>dev_listen_fd\<close> is -1: with
  the dummy socket in place \<open>ni_dhcp_socket_open\<close> returns 0 and leaves the state as it
  is as well.
\<close>

theorem reopen_is_noop:
  assumes "devices w dp = Some dev" and "dev_capture dev = Some cp"
    and "captures w cp = Some cap" and "cap_sock cap = Some sp"
    and "sockets w sp = Some s" and "\<not> sock_error s" and "cap_protocol cap = protocol"
  shows "ni_dhcp_common_open e w dp protocol data_ready = Some (0, w) \<and>
         (protocol = ETHERTYPE_IP \<and> dev_listen_fd dev \<noteq> - 1 \<longrightarrow>
            ni_dhcp_socket_open e w dp = Some (0, w))"
proof -
  have a: "ni_dhcp_common_open e w dp protocol data_ready = Some (0, w)" for data_ready
    using assms by (simp add: ni_dhcp_common_open_def)
  then show ?thesis using assms(1) by (auto simp: ni_dhcp_socket_open_def)
qed

theorem reopen_is_noop_witness:
  "devices (example_world ETHERTYPE_IP Fn_ni_dhcp_socket_recv) 0 = Some example_device \<and>
   dev_capture example_device = Some 1 \<and>
   captures (example_world ETHERTYPE_IP Fn_ni_dhcp_socket_recv) 1 = Some (example_capture ETHERTYPE_IP) \<and>
   cap_sock (example_capture ETHERTYPE_IP) = Some 2 \<and>
   sockets (example_world ETHERTYPE_IP Fn_ni_dhcp_socket_recv) 2 = Some (example_socket Fn_ni_dhcp_socket_recv) \<and>
   \<not> sock_error (example_socket Fn_ni_dhcp_socket_recv) \<and>
   cap_protocol (example_capture ETHERTYPE_IP) = ETHERTYPE_IP \<and>
   dev_listen_fd example_device \<noteq> - 1 \<and>
   ni_dhcp_common_open example_env (example_world ETHERTYPE_IP Fn_ni_dhcp_socket_recv) 0 ETHERTYPE_IP
     Fn_ni_dhcp_socket_recv = Some (0, example_world ETHERTYPE_IP Fn_ni_dhcp_socket_recv) \<and>
   ni_dhcp_socket_open example_env (example_world ETHERTYPE_IP Fn_ni_dhcp_socket_recv) 0 =
     Some (0, example_world ETHERTYPE_IP Fn_ni_dhcp_socket_recv)"
proof -
  let ?w = "example_world ETHERTYPE_IP Fn_ni_dhcp_socket_recv"
  have h: "devices ?w 0 = Some example_device" "dev_capture example_device = Some 1"
    "captures ?w 1 = Some (example_capture ETHERTYPE_IP)" "cap_sock (example_capture ETHERTYPE_IP) = Some 2"
    "sockets ?w 2 = Some (example_socket Fn_ni_dhcp_socket_recv)"
    "\<not> sock_error (example_socket Fn_ni_dhcp_socket_recv)"
    "cap_protocol (example_capture ETHERTYPE_IP) = ETHERTYPE_IP"
    by (simp_all add: example_defs)
  have l: "dev_listen_fd example_device \<noteq> - 1" by (simp add: example_defs)
  from reopen_is_noop[OF h, of example_env Fn_ni_dhcp_socket_recv] l h show ?thesis by blast
qed

text \<open>
  C6.  For a socket whose user data is a capture of a device with deadline \<open>T0\<close>:
  when \<open>T0\<close> is set, \<open>get_timeout\<close> returns 0 and the time \<open>T0\<close>; when it is not
  set, it returns -1 (and the cleared time).  \<open>check_timeout\<close> with a \<open>now\<close> that
  \<^verbatim>\<open>timercmp\<close> finds later than a set \<open>T0\<close> adds exactly one call of the state
  machine's retransmit to the events and changes nothing else; with \<open>T0\<close> unset or not
  earlier than \<open>now\<close> it leaves the state as it is.  For time values with microseconds
  in \<open>[0, 10^6)\<close>, \<^verbatim>\<open>timercmp\<close>'s order is the order of the times.
\<close>

theorem timeout_routing:
  assumes "sockets w sp = Some s" and "sock_user_data s = Some cp"
    and "captures w cp = Some cap" and "cap_dev cap = Some dp"
    and "devices w dp = Some dev" and "dev_retrans_deadline dev = T0"
  shows "(timerisset T0 \<longrightarrow> ni_dhcp_socket_get_timeout w sp tv = Some (0, T0)) \<and>
         (\<not> timerisset T0 \<longrightarrow> ni_dhcp_socket_get_timeout w sp tv = Some (- 1, timerclear)) \<and>
         (timerisset T0 \<and> timercmp_lt T0 now \<longrightarrow>
            ni_dhcp_socket_check_timeout w sp now = Some (w\<lparr>trace := trace w @ [Fsm_retransmit dp]\<rparr>)) \<and>
         (\<not> timerisset T0 \<or> \<not> timercmp_lt T0 now \<longrightarrow>
            ni_dhcp_socket_check_timeout w sp now = Some w) \<and>
         (0 \<le> tv_usec T0 \<and> tv_usec T0 < 1000000 \<and> 0 \<le> tv_usec now \<and> tv_usec now < 1000000 \<longrightarrow>
            (timercmp_lt T0 now \<longleftrightarrow> usecs T0 < usecs now))"
proof -
  have g1: "timerisset T0 \<Longrightarrow> ni_dhcp_socket_get_timeout w sp tv = Some (0, T0)"
    using assms by (simp add: ni_dhcp_socket_get_timeout_def)
  have g2: "\<not> timerisset T0 \<Longrightarrow> ni_dhcp_socket_get_timeout w sp tv = Some (- 1, timerclear)"
    using assms by (simp add: ni_dhcp_socket_get_timeout_def timerisset_def timerclear_def)
  have c1: "timerisset T0 \<and> timercmp_lt T0 now \<Longrightarrow>
      ni_dhcp_socket_check_timeout w sp now = Some (w\<lparr>trace := trace w @ [Fsm_retransmit dp]\<rparr>)"
    using assms by (simp add: ni_dhcp_socket_check_timeout_def ni_dhcp_device_retransmit_def)
  have c2: "\<not> timerisset T0 \<or> \<not> timercmp_lt T0 now \<Longrightarrow>
      ni_dhcp_socket_check_timeout w sp now = Some w"
    using assms by (auto simp: ni_dhcp_socket_check_timeout_def)
  show ?thesis using g1 g2 c1 c2 timercmp_lt_usecs[of T0 now] by blast
qed

theorem timeout_routing_witness:
  "sockets (example_world ETHERTYPE_IP Fn_ni_dhcp_socket_recv) 2 = Some (example_socket Fn_ni_dhcp_socket_recv) \<and>
   sock_user_data (example_socket Fn_ni_dhcp_socket_recv) = Some 1 \<and>
   captures (example_world ETHERTYPE_IP Fn_ni_dhcp_socket_recv) 1 = Some (example_capture ETHERTYPE_IP) \<and>
   cap_dev (example_capture ETHERTYPE_IP) = Some 0 \<and>
   devices (example_world ETHERTYPE_IP Fn_ni_dhcp_socket_recv) 0 = Some example_device \<and>
   dev_retrans_deadline example_device = \<lparr>tv_sec = 1700000000, tv_usec = 250000\<rparr> \<and>
   timerisset \<lparr>tv_sec = 1700000000, tv_usec = 250000\<rparr> \<and>
   timercmp_lt \<lparr>tv_sec = 1700000000, tv_usec = 250000\<rparr> \<lparr>tv_sec = 1700000000, tv_usec = 250001\<rparr> \<and>
   ni_dhcp_socket_get_timeout (example_world ETHERTYPE_IP Fn_ni_dhcp_socket_recv) 2 timerclear =
     Some (0, \<lparr>tv_sec = 1700000000, tv_usec = 250000\<rparr>) \<and>
   ni_dhcp_socket_check_timeout (example_world ETHERTYPE_IP Fn_ni_dhcp_socket_recv) 2
       \<lparr>tv_sec = 1700000000, tv_usec = 250001\<rparr> =
     Some ((example_world ETHERTYPE_IP Fn_ni_dhcp_socket_recv)
       \<lparr>trace := trace (example_world ETHERTYPE_IP Fn_ni_dhcp_socket_recv) @ [Fsm_retransmit 0]\<rparr>) \<and>
   ni_dhcp_socket_check_timeout (example_world ETHERTYPE_IP Fn_ni_dhcp_socket_recv) 2
       \<lparr>tv_sec = 1700000000, tv_usec = 250000\<rparr> =
     Some (example_world ETHERTYPE_IP Fn_ni_dhcp_socket_recv)"
proof -
  let ?w = "example_world ETHERTYPE_IP Fn_ni_dhcp_socket_recv"
  let ?T0 = "\<lparr>tv_sec = 1700000000, tv_usec = 250000\<rparr>"
  let ?now = "\<lparr>tv_sec = 1700000000, tv_usec = 250001\<rparr>"
  have h: "sockets ?w 2 = Some (example_socket Fn_ni_dhcp_socket_recv)"
    "sock_user_data (example_socket Fn_ni_dhcp_socket_recv) = Some 1"
    "captures ?w 1 = Some (example_capture ETHERTYPE_IP)"
    "cap_dev (example_capture ETHERTYPE_IP) = Some 0"
    "devices ?w 0 = Some example_device"
    "dev_retrans_deadline example_device = ?T0"
    by (simp_all add: example_defs)
  have t: "timerisset ?T0" "timercmp_lt ?T0 ?now" "\<not> timercmp_lt ?T0 ?T0"
    by (simp_all add: timerisset_def timercmp_lt_def)
  from timeout_routing[OF h, of timerclear ?now] t
  have a: "ni_dhcp_socket_get_timeout ?w 2 timerclear = Some (0, ?T0)"
    "ni_dhcp_socket_check_timeout ?w 2 ?now = Some (?w\<lparr>trace := trace ?w @ [Fsm_retransmit 0]\<rparr>)"
    by blast+
  from timeout_routing[OF h, of timerclear ?T0] t
  have b: "ni_dhcp_socket_check_timeout ?w 2 ?T0 = Some ?w" by blast
  from h t a b show ?thesis by blast
qed

text \<open>
  C7.  The claim: the reader handed to the ARP processor holds exactly the frame that was
  read, its length the number of bytes read.  \<open>ni_arp_socket_recv\<close> makes the reader
  over the whole buffer, \<^verbatim>\<open>capture->mtu\<close> bytes long: for a 28-byte ARP reply read into
  a 1500-byte buffer, the reader's length is 1500 and its last 1472 bytes are what the
  buffer held before.
\<close>

theorem arp_recv_reader_length:
  "ni_arp_socket_recv example_env (example_world ETHERTYPE_ARP Fn_ni_arp_socket_recv) 2 =
     Some ((example_world ETHERTYPE_ARP Fn_ni_arp_socket_recv)
       \<lparr>captures := [1 \<mapsto> (example_capture ETHERTYPE_ARP)
            \<lparr>cap_buffer := [0, 1, 8, 0, 6, 4, 0, 2, 0, 17, 34, 51, 68, 85, 192, 0, 2, 1,
                             0, 17, 34, 51, 68, 102, 192, 0, 2, 7] @ replicate 1472 0\<rparr>],
        trace := [Syscall (Read 5 1500) 28,
                  Fsm_process_arp_packet 0
                    \<lparr>base = [0, 1, 8, 0, 6, 4, 0, 2, 0, 17, 34, 51, 68, 85, 192, 0, 2, 1,
                             0, 17, 34, 51, 68, 102, 192, 0, 2, 7] @ replicate 1472 0,
                     head = 0, tail = 1500\<rparr>]\<rparr>)"
  by (simp add: ni_arp_socket_recv_def sys_read_def ni_buffer_init_reader_def Let_def example_defs)

theorem arp_recv_reader_length_witness:
  "\<exists>w' r. ni_arp_socket_recv example_env (example_world ETHERTYPE_ARP Fn_ni_arp_socket_recv) 2 = Some w' \<and>
     trace w' = [Syscall (Read 5 1500) 28, Fsm_process_arp_packet 0 r] \<and> ni_buffer_count r = 1500"
  using arp_recv_reader_length by (simp add: ni_buffer_count_def)

text \<open>
  C10.  The claim: when creating or binding the dummy UDP socket fails,
  \<open>ni_dhcp_socket_open\<close> still opens the capture and returns what the capture open
  returns.  That holds for \<^verbatim>\<open>bind\<close>, not for \<^verbatim>\<open>socket\<close>: when creating the socket
  fails, the function returns -1 at once and opens no capture, also where the capture
  open would have succeeded.
\<close>

theorem socket_failure_returns_early:
  "ni_dhcp_socket_open env_socket_fails fresh_world 0 =
     Some (- 1, fresh_world\<lparr>trace := [Syscall Socket_inet_dgram_udp (- 1)]\<rparr>) \<and>
   (\<exists>w'. ni_dhcp_common_open env_socket_fails fresh_world 0 ETHERTYPE_IP Fn_ni_dhcp_socket_recv =
            Some (0, w'))"
  by (simp add: open_defs example_defs)

text \<open>
  C10, as amended.  For a device without a dummy socket (\<open>dev_listen_fd\<close> is -1): if
  creating the dummy socket fails, \<open>ni_dhcp_socket_open\<close> returns -1 after that one
  system call and changes nothing else.  If the socket is created and binding it fails,
  the descriptor is closed and not stored, the function goes on to
  \<open>ni_dhcp_common_open\<close> and returns its result, and in every state it returns the
  device's \<open>dev_listen_fd\<close> is still -1; the result can be 0.
\<close>

theorem dummy_socket_failure:
  fixes e :: env and w :: world
  defines "n \<equiv> length (trace w)"
  defines "fd0 \<equiv> sys_result e (length (trace w)) Socket_inet_dgram_udp"
  assumes "devices w dp = Some dev" and "dev_listen_fd dev = - 1"
  shows "(fd0 = - 1 \<longrightarrow>
            ni_dhcp_socket_open e w dp =
              Some (- 1, w\<lparr>trace := trace w @ [Syscall Socket_inet_dgram_udp (- 1)]\<rparr>)) \<and>
         (fd0 \<noteq> - 1 \<and> sys_result e (n + 4) (Bind_inet fd0 (htons DHCP_CLIENT_PORT)) = - 1 \<longrightarrow>
            ni_dhcp_socket_open e w dp =
              ni_dhcp_common_open e
                (w\<lparr>trace := trace w @
                   [Syscall Socket_inet_dgram_udp fd0,
                    Syscall (Setsockopt fd0 SO_REUSEADDR)
                      (sys_result e (n + 1) (Setsockopt fd0 SO_REUSEADDR)),
                    Syscall (Setsockopt fd0 SO_RCVBUF)
                      (sys_result e (n + 2) (Setsockopt fd0 SO_RCVBUF)),
                    Syscall (Setsockopt fd0 (SO_BINDTODEVICE (dev_ifname dev)))
                      (sys_result e (n + 3) (Setsockopt fd0 (SO_BINDTODEVICE (dev_ifname dev)))),
                    Syscall (Bind_inet fd0 (htons DHCP_CLIENT_PORT)) (- 1),
                    Syscall (Close fd0) (sys_result e (n + 5) (Close fd0))]\<rparr>)
                dp ETHERTYPE_IP Fn_ni_dhcp_socket_recv \<and>
            (\<forall>r w'. ni_dhcp_socket_open e w dp = Some (r, w') \<longrightarrow>
               (\<exists>dev'. devices w' dp = Some dev' \<and> dev_listen_fd dev' = - 1)))"
proof -
  have p1: "ni_dhcp_socket_open e w dp =
      Some (- 1, w\<lparr>trace := trace w @ [Syscall Socket_inet_dgram_udp (- 1)]\<rparr>)"
    if "fd0 = - 1"
    using assms(3,4) that by (simp add: ni_dhcp_socket_open_def sys_def Let_def fd0_def)
  define w6 where "w6 = w\<lparr>trace := trace w @
                   [Syscall Socket_inet_dgram_udp fd0,
                    Syscall (Setsockopt fd0 SO_REUSEADDR)
                      (sys_result e (n + 1) (Setsockopt fd0 SO_REUSEADDR)),
                    Syscall (Setsockopt fd0 SO_RCVBUF)
                      (sys_result e (n + 2) (Setsockopt fd0 SO_RCVBUF)),
                    Syscall (Setsockopt fd0 (SO_BINDTODEVICE (dev_ifname dev)))
                      (sys_result e (n + 3) (Setsockopt fd0 (SO_BINDTODEVICE (dev_ifname dev)))),
                    Syscall (Bind_inet fd0 (htons DHCP_CLIENT_PORT)) (- 1),
                    Syscall (Close fd0) (sys_result e (n + 5) (Close fd0))]\<rparr>"
  have p2: "ni_dhcp_socket_open e w dp = ni_dhcp_common_open e w6 dp ETHERTYPE_IP Fn_ni_dhcp_socket_recv \<and>
      (\<forall>r w'. ni_dhcp_socket_open e w dp = Some (r, w') \<longrightarrow>
               (\<exists>dev'. devices w' dp = Some dev' \<and> dev_listen_fd dev' = - 1))"
    if h: "fd0 \<noteq> - 1 \<and> sys_result e (n + 4) (Bind_inet fd0 (htons DHCP_CLIENT_PORT)) = - 1"
  proof -
    have eq: "ni_dhcp_socket_open e w dp = ni_dhcp_common_open e w6 dp ETHERTYPE_IP Fn_ni_dhcp_socket_recv"
      using assms(3,4) h unfolding w6_def fd0_def n_def
      by (simp add: ni_dhcp_socket_open_def sys_def Let_def eval_nat_numeral)
    have d: "devices w6 dp = Some dev" using assms(3) by (simp add: w6_def)
    have "\<forall>r w'. ni_dhcp_socket_open e w dp = Some (r, w') \<longrightarrow>
               (\<exists>dev'. devices w' dp = Some dev' \<and> dev_listen_fd dev' = - 1)"
      unfolding eq using ni_dhcp_common_open_listen_fd[OF _ d] assms(4) by fastforce
    with eq show ?thesis by blast
  qed
  show ?thesis using p1 p2 unfolding w6_def by blast
qed

theorem dummy_socket_failure_witness:
  "devices fresh_world 0 = Some (example_device\<lparr>dev_listen_fd := - 1, dev_capture := None\<rparr>) \<and>
   dev_listen_fd (example_device\<lparr>dev_listen_fd := - 1, dev_capture := None\<rparr>) = - 1 \<and>
   sys_result env_socket_fails (length (trace fresh_world)) Socket_inet_dgram_udp = - 1 \<and>
   ni_dhcp_socket_open env_socket_fails fresh_world 0 =
     Some (- 1, fresh_world\<lparr>trace := trace fresh_world @ [Syscall Socket_inet_dgram_udp (- 1)]\<rparr>) \<and>
   sys_result env_bind_fails (length (trace fresh_world)) Socket_inet_dgram_udp = 3 \<and>
   sys_result env_bind_fails (length (trace fresh_world) + 4) (Bind_inet 3 (htons DHCP_CLIENT_PORT)) = - 1 \<and>
   (\<exists>w' dev'. ni_dhcp_socket_open env_bind_fails fresh_world 0 = Some (0, w') \<and>
      devices w' 0 = Some dev' \<and> dev_listen_fd dev' = - 1 \<and> dev_capture dev' = Some 1)"
proof -
  let ?dev = "example_device\<lparr>dev_listen_fd := - 1, dev_capture := None\<rparr>"
  have a: "devices fresh_world 0 = Some ?dev" "dev_listen_fd ?dev = - 1"
    by (simp_all add: example_defs)
  have b: "sys_result env_socket_fails (length (trace fresh_world)) Socket_inet_dgram_udp = - 1"
    by (simp add: example_defs)
  have c: "sys_result env_bind_fails (length (trace fresh_world)) Socket_inet_dgram_udp = 3"
    "sys_result env_bind_fails (length (trace fresh_world) + 4) (Bind_inet 3 (htons DHCP_CLIENT_PORT)) = - 1"
    by (simp_all add: example_defs)
  from dummy_socket_failure[OF a, of env_socket_fails] b
  have d: "ni_dhcp_socket_open env_socket_fails fresh_world 0 =
     Some (- 1, fresh_world\<lparr>trace := trace fresh_world @ [Syscall Socket_inet_dgram_udp (- 1)]\<rparr>)"
    by simp
  have "\<exists>w'. ni_dhcp_socket_open env_bind_fails fresh_world 0 = Some (0, w') \<and>
      (\<exists>dev'. devices w' 0 = Some dev' \<and> dev_capture dev' = Some 1)"
    by (simp add: open_defs example_defs)
  then obtain w' dev' where o: "ni_dhcp_socket_open env_bind_fails fresh_world 0 = Some (0, w')"
    "devices w' 0 = Some dev'" "dev_capture dev' = Some 1" by blast
  from dummy_socket_failure[OF a, of env_bind_fails] c o(1)
  have "\<exists>dev'. devices w' 0 = Some dev' \<and> dev_listen_fd dev' = - 1" by simp
  with o have "\<exists>w' dev'. ni_dhcp_socket_open env_bind_fails fresh_world 0 = Some (0, w') \<and>
      devices w' 0 = Some dev' \<and> dev_listen_fd dev' = - 1 \<and> dev_capture dev' = Some 1"
    by fastforce
  with a b c d show ?thesis by blast
qed

end
